theory Spec2Isabelle
  imports Main "HOL-Library.Signed_Division" "HOL-Library.Sublist" "HOL-Library.Multiset"
    "HOL-Library.Char_ord" "HOL-Library.List_Lexorder"
begin

section \<open>Time\<close>

text \<open>
  A \<open>time.Time\<close> is modelled as the number of nanoseconds since the Unix epoch, a
  \<open>time.Duration\<close> as a number of nanoseconds. \<open>t.After(u)\<close> and \<open>t.Before(u)\<close> are
  the strict comparisons, \<open>t.Add(d)\<close> is addition. Every call of \<open>time.Now()\<close> in the
  source is a parameter of the model: the clock reading the call returned.
\<close>

type_synonym time = int
type_synonym duration = int

definition Hour :: duration where
  "Hour = 3600 * 1000000000"

definition After :: "time \<Rightarrow> time \<Rightarrow> bool" where
  "After t u = (u < t)"

definition Before :: "time \<Rightarrow> time \<Rightarrow> bool" where
  "Before t u = (t < u)"

definition Add :: "time \<Rightarrow> duration \<Rightarrow> time" where
  "Add t d = t + d"

section \<open>The canonical item and page types (hive/models.go)\<close>

record RoadmapItem =
  ID :: string
  Slug :: string
  Title :: string
  Status :: string
  Category :: string
  Upvotes :: int
  Date :: string
  LastModified :: string
  Pinned :: bool
  ETA :: string
  ContentHTML :: string
  ContentText :: string
  ItemPage :: int
  Network :: string
  ProjectLead :: string
  URL :: string

text \<open>
  The field \<open>Page\<close> of \<open>RoadmapItem\<close> is \<open>ItemPage\<close> here, since a record field name
  is global and \<open>PageMeta\<close> has a field \<open>Page\<close> too. The fields of the other structs
  carry a short prefix for the same reason.
\<close>

record PageMeta =
  Page :: int
  Limit :: int
  TotalPages :: int
  TotalResults :: int

record RoadmapPage =
  Meta :: PageMeta
  Items :: "RoadmapItem list"

record hiveSubmission =
  subID :: string
  subSlug :: string
  subTitle :: string
  subContentHTML :: string
  subUpvotes :: int
  subDate :: string
  subLastModified :: string
  subPinned :: bool
  subEta :: "string option"
  subPostStatus :: "string option"
  subPostCategory :: "(string \<rightharpoonup> string) option"

text \<open>
  \<open>subPostStatus\<close> is the \<open>Name\<close> of the \<open>*postStatus\<close> when the pointer is not nil,
  \<open>subPostCategory\<close> the \<open>Name\<close> map of the \<open>*postCategory\<close>. The fields
  \<open>Translations\<close> and \<open>User\<close> are read nowhere and are left out.
\<close>

record hiveResponse =
  hrResults :: "hiveSubmission list"
  hrPage :: int
  hrLimit :: int
  hrTotalPages :: int
  hrTotalResults :: int

text \<open>The zero value, which \<open>make([]hiveResponse, total)\<close> fills the slice with.\<close>

definition zeroResponse :: hiveResponse where
  "zeroResponse = \<lparr>hrResults = [], hrPage = 0, hrLimit = 0, hrTotalPages = 0, hrTotalResults = 0\<rparr>"

section \<open>Errors\<close>

text \<open>
  Every error return of the two clients, and the two ways a call can fail to return:
  a run-time panic and a goroutine that blocks for ever.
\<close>

datatype error =
    UnknownColumn string       \<comment> \<open>\<open>fmt.Errorf("unknown column: %s", q.Column)\<close>\<close>
  | RequestError               \<comment> \<open>\<open>http.NewRequestWithContext\<close> failed\<close>
  | TransportError             \<comment> \<open>\<open>httpClient.Do\<close> failed\<close>
  | UpstreamStatus int string  \<comment> \<open>\<open>fmt.Errorf("upstream status %d: %s", ...)\<close>\<close>
  | ReadError                  \<comment> \<open>\<open>io.ReadAll\<close> failed\<close>
  | DecodeError                \<comment> \<open>\<open>json.Unmarshal\<close> failed\<close>
  | Panic                      \<comment> \<open>run-time panic\<close>
  | Blocked                    \<comment> \<open>the call never returns\<close>

section \<open>The change tracker (hive/service.go and cubecraft/service.go)\<close>

text \<open>
  \<open>hive.changeEntry\<close> and \<open>cubecraft.statusChange\<close> have the same four fields and differ
  in the type of the item snapshot only, so one record with the item type as a parameter
  stands for both. The tracker is the part of the \<open>service\<close> struct that the mutex
  \<open>mu\<close> guards: the previous-status index and the change log.
\<close>

record 'i changeEntry =
  At :: time
  From :: string
  To :: string
  Item :: 'i

record 'i tracker =
  prevStatus :: "string \<rightharpoonup> string"
  updates :: "'i changeEntry list"

definition newTracker :: "'i tracker" where
  "newTracker = \<lparr>prevStatus = Map.empty, updates = []\<rparr>"

text \<open>
  The pruning loop of both \<open>recordChanges\<close> and \<open>Updates\<close>: keep \<open>u\<close> when
  \<open>u.At.After(keepAfter)\<close>.
\<close>

definition keepRecent :: "time \<Rightarrow> 'i changeEntry list \<Rightarrow> 'i changeEntry list" where
  "keepRecent keepAfter us = filter (\<lambda>u. After (At u) keepAfter) us"

text \<open>
  The body of the loop \<open>for _, it := range items\<close>; \<open>idOf\<close> and \<open>statusOf\<close> read
  \<open>it.ID\<close> and \<open>it.Status\<close>.
\<close>

definition recordItem ::
  "('i \<Rightarrow> string) \<Rightarrow> ('i \<Rightarrow> string) \<Rightarrow> time \<Rightarrow> 'i tracker \<Rightarrow> 'i \<Rightarrow> 'i tracker" where
  "recordItem idOf statusOf now s it =
     (case prevStatus s (idOf it) of
        None \<Rightarrow> s\<lparr>prevStatus := (prevStatus s)(idOf it \<mapsto> statusOf it)\<rparr>
      | Some prev \<Rightarrow>
          if prev \<noteq> statusOf it
          then s\<lparr>updates := updates s @ [\<lparr>At = now, From = prev, To = statusOf it, Item = it\<rparr>],
                 prevStatus := (prevStatus s)(idOf it \<mapsto> statusOf it)\<rparr>
          else s)"

text \<open>
  \<open>now\<close> is the reading of \<open>time.Now()\<close> in the first line of the function, taken
  before the mutex is locked; the rest runs under the mutex.
\<close>

definition trackerRecord ::
  "('i \<Rightarrow> string) \<Rightarrow> ('i \<Rightarrow> string) \<Rightarrow> time \<Rightarrow> 'i list \<Rightarrow> 'i tracker \<Rightarrow> 'i tracker" where
  "trackerRecord idOf statusOf now items s =
     (let keepAfter = Add now (- 24 * Hour);
          filtered = keepRecent keepAfter (updates s)
      in foldl (recordItem idOf statusOf now) (s\<lparr>updates := filtered\<rparr>) items)"

text \<open>\<open>Updates\<close> returns a filtered copy and leaves the stored log as it is.\<close>

definition trackerUpdates :: "time \<Rightarrow> 'i tracker \<Rightarrow> 'i changeEntry list" where
  "trackerUpdates now s =
     (let keepAfter = Add now (- 24 * Hour)
      in keepRecent keepAfter (updates s))"

text \<open>\<open>hive.service.recordChanges\<close> and \<open>hive.service.Updates\<close>.\<close>

definition recordChanges :: "time \<Rightarrow> RoadmapItem list \<Rightarrow> RoadmapItem tracker \<Rightarrow> RoadmapItem tracker" where
  "recordChanges = trackerRecord ID Status"

definition hive_Updates :: "time \<Rightarrow> RoadmapItem tracker \<Rightarrow> RoadmapItem changeEntry list" where
  "hive_Updates = trackerUpdates"

section \<open>The environment\<close>

text \<open>
  What the code calls and the repository does not define is a field of the environment:
  the functions of Go's standard library whose result the model does not compute, and the
  behaviour of the two upstream providers. A URL of the hive provider is kept as the
  components \<open>buildURL\<close> assembles it from.
\<close>

type_synonym rune = nat

record hiveURL =
  uBase :: string
  uS :: string
  uSortBy :: string
  uInReview :: bool
  uIncludePinned :: bool
  uPage :: int

text \<open>
  The outcome of one HTTP exchange: \<open>http.NewRequestWithContext\<close> fails and nothing is
  sent, \<open>httpClient.Do\<close> fails, or a response arrives with a status code, the bytes of
  its body and whether reading the body ends in an error.
\<close>

datatype httpOutcome = RequestInvalid | DoFailed | Response int string bool

record Card =
  cardID :: string
  cardTitle :: string
  cardURL :: string
  cardProperties :: "(string \<times> string) list"
  cardCreatedAt :: int
  cardUpdatedAt :: int
  cardReleasedAt :: string

text \<open>
  \<open>cardProperties\<close> is the Go map \<open>Properties\<close> as the list of its entries in the order
  in which \<open>range\<close> visits them.
\<close>

record env =
  ToLower :: "string \<Rightarrow> string"                    \<comment> \<open>\<open>strings.ToLower\<close>\<close>
  utf8Decode :: "string \<Rightarrow> rune list"              \<comment> \<open>the runes \<open>range\<close> yields\<close>
  utf8Encode :: "rune list \<Rightarrow> string"              \<comment> \<open>\<open>WriteRune\<close> of each rune\<close>
  parseDate :: "string \<Rightarrow> time option"             \<comment> \<open>\<open>time.Parse("2006-01-02", s)\<close>\<close>
  formatRFC3339 :: "time \<Rightarrow> string"                \<comment> \<open>\<open>t.Format(time.RFC3339)\<close>\<close>
  hiveUpstream :: "hiveURL \<Rightarrow> httpOutcome"         \<comment> \<open>a GET of the URL\<close>
  hiveUnmarshal :: "string \<Rightarrow> hiveResponse option" \<comment> \<open>\<open>json.Unmarshal(raw, &hr)\<close>\<close>
  notionUpstream :: httpOutcome                   \<comment> \<open>the POST to \<open>notionAPIURL\<close>\<close>
  notionDecode :: "string \<Rightarrow> Card list option"     \<comment> \<open>lines 123 to 201 of \<open>Fetch\<close>\<close>

section \<open>The hive client (hive/client.go)\<close>

definition columnToStatusID :: "string \<rightharpoonup> string" where
  "columnToStatusID = map_of
     [(''in-progress'', ''673d43b2b479f2dff6f8b96e''),
      (''coming-next'', ''673d43a8b479f2dff6f8b74b''),
      (''released'', ''67489361029fa6e5e4579b21'')]"

record cacheEntry =
  body :: string
  expiresAt :: time

text \<open>
  The \<open>Client\<close> struct. \<open>sent\<close> is not a field of the source: it logs the URL of every
  request handed to \<open>httpClient.Do\<close>, so that the model can say which requests went out.
\<close>

record Client =
  baseURL :: string
  cache :: "hiveURL \<rightharpoonup> cacheEntry"
  cacheTTL :: duration
  maxConcurrency :: int
  sent :: "hiveURL list"

definition WithCacheTTL :: "duration \<Rightarrow> Client \<Rightarrow> Client" where
  "WithCacheTTL ttl c = c\<lparr>cacheTTL := ttl\<rparr>"

definition WithMaxConcurrency :: "int \<Rightarrow> Client \<Rightarrow> Client" where
  "WithMaxConcurrency n c = c\<lparr>maxConcurrency := (if n < 1 then 1 else n)\<rparr>"

definition NewClient :: "string \<Rightarrow> (Client \<Rightarrow> Client) list \<Rightarrow> Client" where
  "NewClient url opts =
     foldl (\<lambda>c opt. opt c)
       \<lparr>baseURL = url, cache = Map.empty, cacheTTL = 0, maxConcurrency = 2, sent = []\<rparr> opts"

record Query =
  qColumn :: string
  qPage :: int
  qSortBy :: string
  qInReview :: bool
  qIncludePinned :: bool
  qRaw :: bool
  qBypassCache :: bool

definition statusID :: "env \<Rightarrow> Query \<Rightarrow> error + string" where
  "statusID e q =
     (case columnToStatusID (ToLower e (qColumn q)) of
        None \<Rightarrow> Inl (UnknownColumn (qColumn q))
      | Some i \<Rightarrow> Inr i)"

definition buildURL :: "env \<Rightarrow> Client \<Rightarrow> Query \<Rightarrow> error + hiveURL" where
  "buildURL e c q0 =
     (let q1 = (if qPage q0 \<le> 0 then q0\<lparr>qPage := 1\<rparr> else q0);
          q = (if qSortBy q1 = [] then q1\<lparr>qSortBy := ''upvotes:desc''\<rparr> else q1)
      in case statusID e q of
           Inl err \<Rightarrow> Inl err
         | Inr i \<Rightarrow>
             Inr \<lparr>uBase = baseURL c, uS = i, uSortBy = qSortBy q, uInReview = qInReview q,
                  uIncludePinned = qIncludePinned q, uPage = qPage q\<rparr>)"

text \<open>
  Lines 116 to 140 of \<open>get\<close>: the round trip to the provider. \<open>now'\<close> is the reading of
  \<open>time.Now()\<close> when the entry is stored. \<open>io.LimitReader\<close> cuts the body at 16 MiB, and
  at 2 MiB for the text of an error status.
\<close>

definition roundTrip :: "env \<Rightarrow> time \<Rightarrow> hiveURL \<Rightarrow> bool \<Rightarrow> Client \<Rightarrow> (error + string) \<times> Client" where
  "roundTrip e now' fullURL bypassCache c =
     (case hiveUpstream e fullURL of
        RequestInvalid \<Rightarrow> (Inl RequestError, c)
      | DoFailed \<Rightarrow> (Inl TransportError, c\<lparr>sent := sent c @ [fullURL]\<rparr>)
      | Response code bytes readOK \<Rightarrow>
          (let c1 = c\<lparr>sent := sent c @ [fullURL]\<rparr> in
           if code \<ge> 400 then (Inl (UpstreamStatus code (take (2 * 2 ^ 20) bytes)), c1)
           else if \<not> readOK then (Inl ReadError, c1)
           else
             (let b = take (16 * 2 ^ 20) bytes in
              if cacheTTL c > 0 \<and> \<not> bypassCache
              then (Inr b, c1\<lparr>cache := (cache c1)(fullURL \<mapsto>
                                  \<lparr>body = b, expiresAt = Add now' (cacheTTL c)\<rparr>)\<rparr>)
              else (Inr b, c1))))"

text \<open>\<open>Client.get\<close>; \<open>now\<close> is the reading of \<open>time.Now()\<close> at the expiry check.\<close>

definition hive_get :: "env \<Rightarrow> time \<Rightarrow> time \<Rightarrow> hiveURL \<Rightarrow> bool \<Rightarrow> Client \<Rightarrow> (error + string) \<times> Client" where
  "hive_get e now now' fullURL bypassCache c =
     (if \<not> bypassCache \<and> cacheTTL c > 0 then
        (case cache c fullURL of
           Some entry \<Rightarrow>
             if Before now (expiresAt entry) then (Inr (body entry), c)
             else roundTrip e now' fullURL bypassCache (c\<lparr>cache := (cache c)(fullURL := None)\<rparr>)
         | None \<Rightarrow> roundTrip e now' fullURL bypassCache c)
      else roundTrip e now' fullURL bypassCache c)"

text \<open>
  \<open>Client.FetchPage\<close>. The result carries the decoded response and the raw body; the
  raw body that the source returns next to a decoding error is dropped, no caller reads it.
\<close>

definition FetchPage ::
  "env \<Rightarrow> time \<Rightarrow> time \<Rightarrow> Query \<Rightarrow> Client \<Rightarrow> (error + hiveResponse \<times> string) \<times> Client" where
  "FetchPage e now now' q c =
     (case buildURL e c q of
        Inl err \<Rightarrow> (Inl err, c)
      | Inr u \<Rightarrow>
          (case hive_get e now now' u (qBypassCache q) c of
             (Inl err, c') \<Rightarrow> (Inl err, c')
           | (Inr raw, c') \<Rightarrow>
               (case hiveUnmarshal e raw of
                  None \<Rightarrow> (Inl DecodeError, c')
                | Some hr \<Rightarrow> (Inr (hr, raw), c'))))"

text \<open>
  \<open>Client.FetchAllPages\<close>. The page fetcher \<open>fp\<close> stands for \<open>c.FetchPage(ctx, \<cdot>)\<close>.

  The goroutines are modelled by the order in which they finish. The loop
  \<open>for p := 2; p <= total; p++\<close> sends each job once on the unbuffered channel, and a
  channel hands each value to exactly one receiver, so every job is run once by some
  worker; the worker then takes the mutex and writes its outcome. \<open>order\<close> turns the list
  of jobs into the order in which the workers take the mutex: any permutation can occur.
  Two jobs fetch different URLs, so their cache accesses touch different keys and the
  client state is threaded through the jobs in the same order.

  \<open>worker\<close> is the body of the loop \<open>for j := range jobs\<close> of the closure.
\<close>

type_synonym fetcher = "Query \<Rightarrow> Client \<Rightarrow> (error + hiveResponse \<times> string) \<times> Client"

definition worker ::
  "fetcher \<Rightarrow> Query \<Rightarrow> hiveResponse list \<times> error option \<times> Client \<Rightarrow> int
     \<Rightarrow> hiveResponse list \<times> error option \<times> Client" where
  "worker fp base st page =
     (case st of (results, firstErr, c) \<Rightarrow>
        (let q = base\<lparr>qPage := page\<rparr> in
         case fp q c of
           (Inl err, c') \<Rightarrow>
             if firstErr = None then (results, Some err, c') else (results, firstErr, c')
         | (Inr (hr, raw), c') \<Rightarrow> (results[nat (page - 1) := hr], firstErr, c')))"

definition jobs :: "int \<Rightarrow> int list" where
  "jobs n = [2..n]"

text \<open>
  \<open>make([]hiveResponse, total)\<close> panics when \<open>total\<close> is negative, \<open>wg.Add\<close> panics on
  a negative count, and with no worker the first send on the channel blocks for ever.
  (\<open>tot\<close> is the variable \<open>total\<close> of the source.)
\<close>

definition FetchAllPages ::
  "fetcher \<Rightarrow> (int list \<Rightarrow> int list) \<Rightarrow> Query \<Rightarrow> Client \<Rightarrow> (error + hiveResponse list) \<times> Client" where
  "FetchAllPages fp order base c =
     (case fp base c of
        (Inl err, c1) \<Rightarrow> (Inl err, c1)
      | (Inr (first, raw), c1) \<Rightarrow>
          (let tot = hrTotalPages first in
           if tot = 0 then (Inr [first], c1)
           else if tot < 0 then (Inl Panic, c1)
           else
             (let results = (replicate (nat tot) zeroResponse)[0 := first];
                  workers = (if maxConcurrency c > tot then tot else maxConcurrency c)
              in if workers < 0 then (Inl Panic, c1)
                 else if workers = 0 \<and> 2 \<le> tot then (Inl Blocked, c1)
                 else
                   (case foldl (worker fp base) (results, None, c1) (order (jobs tot)) of
                      (results', firstErr, c2) \<Rightarrow>
                        (case firstErr of
                           Some err \<Rightarrow> (Inl err, c2)
                         | None \<Rightarrow> (Inr results', c2))))))"

subsection \<open>stripHTML\<close>

text \<open>
  \<open>stripHTML\<close> works on runes: its argument is the sequence of runes that
  \<open>for _, r := range input\<close> yields, its result the runes of the string it returns.
  \<open>strings.Builder\<close> holds the UTF-8 encoding of the runes written to it; the old strings
  of the replacer are ASCII and \<open>strings.TrimSpace\<close> decodes runes, so both act on that
  encoding as they are modelled on the runes.
\<close>

definition runes :: "string \<Rightarrow> rune list" where
  "runes s = map of_char s"

fun stripTags :: "bool \<Rightarrow> rune list \<Rightarrow> rune list" where
  "stripTags inTag [] = []"
| "stripTags inTag (r # rs) =
     (if r = of_char CHR ''<'' then stripTags True rs
      else if r = of_char CHR ''>'' then stripTags False rs
      else if \<not> inTag then r # stripTags inTag rs
      else stripTags inTag rs)"

text \<open>
  \<open>strings.NewReplacer(...).Replace\<close>, the generic replacer: at each position, from left
  to right, the first pair in argument order whose old string starts there is replaced and
  the scan goes on behind it; otherwise the rune is copied. (An empty old string, which Go
  treats in a way of its own, does not occur in the table of \<open>stripHTML\<close>.)
\<close>

definition firstMatch :: "(rune list \<times> rune list) list \<Rightarrow> rune list \<Rightarrow> (rune list \<times> rune list) option" where
  "firstMatch tbl s = find (\<lambda>p. fst p \<noteq> [] \<and> prefix (fst p) s) tbl"

function Replace :: "(rune list \<times> rune list) list \<Rightarrow> rune list \<Rightarrow> rune list" where
  "Replace tbl [] = []"
| "Replace tbl (r # rs) =
     (case firstMatch tbl (r # rs) of
        Some p \<Rightarrow> snd p @ Replace tbl (drop (length (fst p)) (r # rs))
      | None \<Rightarrow> r # Replace tbl rs)"
  by pat_completeness auto
termination
proof (relation "measure (\<lambda>(tbl, s). length s)")
  show "wf (measure (\<lambda>(tbl, s). length s))" by simp
next
  fix tbl :: "(rune list \<times> rune list) list" and r rs p
  assume "firstMatch tbl (r # rs) = Some p"
  then have "fst p \<noteq> []" by (auto simp: firstMatch_def find_Some_iff)
  then show "((tbl, drop (length (fst p)) (r # rs)), (tbl, r # rs)) \<in> measure (\<lambda>(tbl, s). length s)"
    by (cases "fst p") auto
next
  fix tbl :: "(rune list \<times> rune list) list" and r rs
  show "((tbl, rs), (tbl, r # rs)) \<in> measure (\<lambda>(tbl, s). length s)" by simp
qed

definition entities :: "(rune list \<times> rune list) list" where
  "entities =
     [(runes ''&nbsp;'', runes '' ''),
      (runes ''&amp;'', runes ''&''),
      (runes ''&lt;'', runes ''<''),
      (runes ''&gt;'', runes ''>''),
      (runes ''&#39;'', runes [CHR 0x27]),
      (runes ''&quot;'', runes [CHR 0x22])]"

text \<open>\<open>unicode.IsSpace\<close>: the runes with the property White_Space.\<close>

definition isSpace :: "rune \<Rightarrow> bool" where
  "isSpace r =
     ((9 \<le> r \<and> r \<le> 13) \<or> r = 32 \<or> r = 0x85 \<or> r = 0xA0 \<or> r = 0x1680
      \<or> (0x2000 \<le> r \<and> r \<le> 0x200A) \<or> r = 0x2028 \<or> r = 0x2029 \<or> r = 0x202F
      \<or> r = 0x205F \<or> r = 0x3000)"

definition TrimSpace :: "rune list \<Rightarrow> rune list" where
  "TrimSpace s = rev (dropWhile isSpace (rev (dropWhile isSpace s)))"

definition stripHTML :: "rune list \<Rightarrow> rune list" where
  "stripHTML input = TrimSpace (Replace entities (stripTags False input))"

subsection \<open>MapResponse\<close>

definition mapSubmission :: "env \<Rightarrow> hiveResponse \<Rightarrow> hiveSubmission \<Rightarrow> RoadmapItem" where
  "mapSubmission e hr s =
     \<lparr>ID = subID s, Slug = subSlug s, Title = subTitle s,
      Status = (case subPostStatus s of Some n \<Rightarrow> n | None \<Rightarrow> []),
      Category = (case subPostCategory s of
                    Some names \<Rightarrow> (case names ''en'' of Some n \<Rightarrow> n | None \<Rightarrow> [])
                  | None \<Rightarrow> []),
      Upvotes = subUpvotes s, Date = subDate s, LastModified = subLastModified s,
      Pinned = subPinned s,
      ETA = (case subEta s of Some x \<Rightarrow> x | None \<Rightarrow> []),
      ContentHTML = subContentHTML s,
      ContentText = utf8Encode e (stripHTML (utf8Decode e (subContentHTML s))),
      ItemPage = hrPage hr, Network = [], ProjectLead = [], URL = []\<rparr>"

definition MapResponse :: "env \<Rightarrow> hiveResponse \<Rightarrow> RoadmapPage" where
  "MapResponse e hr =
     \<lparr>Meta = \<lparr>Page = hrPage hr, Limit = hrLimit hr, TotalPages = hrTotalPages hr,
              TotalResults = hrTotalResults hr\<rparr>,
      Items = map (mapSubmission e hr) (hrResults hr)\<rparr>"

section \<open>The hive service (hive/service.go)\<close>

record hiveService =
  svcClient :: Client
  svcTracker :: "RoadmapItem tracker"

definition NewService :: "Client \<Rightarrow> hiveService" where
  "NewService c = \<lparr>svcClient = c, svcTracker = newTracker\<rparr>"

text \<open>
  \<open>now\<close> and \<open>now'\<close> are the clock readings inside \<open>FetchPage\<close>, \<open>t\<close> the one of
  \<open>recordChanges\<close>.
\<close>

definition GetPage ::
  "env \<Rightarrow> time \<Rightarrow> time \<Rightarrow> time \<Rightarrow> Query \<Rightarrow> hiveService \<Rightarrow> (error + RoadmapPage \<times> string) \<times> hiveService" where
  "GetPage e now now' t q s =
     (case FetchPage e now now' q (svcClient s) of
        (Inl err, c') \<Rightarrow> (Inl err, s\<lparr>svcClient := c'\<rparr>)
      | (Inr (hr, raw), c') \<Rightarrow>
          (let page = MapResponse e hr
           in (Inr (page, raw),
               s\<lparr>svcClient := c', svcTracker := recordChanges t (Items page) (svcTracker s)\<rparr>)))"

text \<open>
  \<open>clk\<close> gives the two clock readings inside the \<open>FetchPage\<close> call for a query, \<open>t\<close> is
  the reading of \<open>recordChanges\<close>.
\<close>

definition GetAll ::
  "env \<Rightarrow> (Query \<Rightarrow> time \<times> time) \<Rightarrow> (int list \<Rightarrow> int list) \<Rightarrow> time \<Rightarrow> Query \<Rightarrow> hiveService
     \<Rightarrow> (error + RoadmapPage list) \<times> hiveService" where
  "GetAll e clk order t q s =
     (case FetchAllPages (\<lambda>q'. FetchPage e (fst (clk q')) (snd (clk q')) q') order q (svcClient s) of
        (Inl err, c') \<Rightarrow> (Inl err, s\<lparr>svcClient := c'\<rparr>)
      | (Inr all, c') \<Rightarrow>
          (let out = map (MapResponse e) all;
               collected = concat (map Items out)
           in (Inr out, s\<lparr>svcClient := c', svcTracker := recordChanges t collected (svcTracker s)\<rparr>)))"

section \<open>The cubecraft client (cubecraft/client.go)\<close>

record ccCacheEntry =
  data :: "Card list"
  ccExpiresAt :: time

text \<open>
  The cubecraft \<open>Client\<close> struct. \<open>ccSent\<close> is not a field of the source: it counts the
  requests handed to \<open>httpClient.Do\<close>.
\<close>

record ccClient =
  ccCacheTTL :: duration
  ccCache :: "ccCacheEntry option"
  ccSent :: nat

definition ccWithCacheTTL :: "duration \<Rightarrow> ccClient \<Rightarrow> ccClient" where
  "ccWithCacheTTL ttl c = c\<lparr>ccCacheTTL := ttl\<rparr>"

definition ccNewClient :: "(ccClient \<Rightarrow> ccClient) list \<Rightarrow> ccClient" where
  "ccNewClient opts = foldl (\<lambda>c opt. opt c) \<lparr>ccCacheTTL = 0, ccCache = None, ccSent = 0\<rparr> opts"

text \<open>
  Lines 101 to 208 of \<open>Fetch\<close>: the request, the decoding of the answer into cards and
  the store. \<open>Fetch\<close> does not look at the status code.
\<close>

definition notionRoundTrip :: "env \<Rightarrow> time \<Rightarrow> ccClient \<Rightarrow> (error + Card list) \<times> ccClient" where
  "notionRoundTrip e now' c =
     (case notionUpstream e of
        RequestInvalid \<Rightarrow> (Inl RequestError, c)
      | DoFailed \<Rightarrow> (Inl TransportError, c\<lparr>ccSent := ccSent c + 1\<rparr>)
      | Response code bytes readOK \<Rightarrow>
          (let c1 = c\<lparr>ccSent := ccSent c + 1\<rparr> in
           if \<not> readOK then (Inl ReadError, c1)
           else
             (case notionDecode e (take (32 * 2 ^ 20) bytes) of
                None \<Rightarrow> (Inl DecodeError, c1)
              | Some cards \<Rightarrow>
                  if ccCacheTTL c > 0
                  then (Inr cards,
                        c1\<lparr>ccCache := Some \<lparr>data = cards, ccExpiresAt = Add now' (ccCacheTTL c)\<rparr>\<rparr>)
                  else (Inr cards, c1))))"

definition Fetch :: "env \<Rightarrow> time \<Rightarrow> time \<Rightarrow> ccClient \<Rightarrow> (error + Card list) \<times> ccClient" where
  "Fetch e now now' c =
     (if ccCacheTTL c > 0 then
        (case ccCache c of
           Some entry \<Rightarrow>
             if Before now (ccExpiresAt entry) then (Inr (data entry), c)
             else notionRoundTrip e now' c
         | None \<Rightarrow> notionRoundTrip e now' c)
      else notionRoundTrip e now' c)"

definition keyMap :: "string \<rightharpoonup> string" where
  "keyMap = map_of
     [(''3E6J'', ''status''),
      (''@@W>'', ''network''),
      (''K:rY'', ''category''),
      (CHR 0x5C # ''wxR'', ''projectLead''),
      (''^NHI'', ''releasePost''),
      (''created_time'', ''createdAt''),
      (''last_edited_time'', ''lastUpdated''),
      (''?igY'', ''releasedAt'')]"

definition renameMap :: "(string \<times> string) list \<Rightarrow> (string \<rightharpoonup> string)" where
  "renameMap inp =
     foldl (\<lambda>out kv. out((case keyMap (fst kv) of Some nk \<Rightarrow> nk | None \<Rightarrow> fst kv) \<mapsto> snd kv))
       Map.empty inp"

text \<open>Reading a Go map: the empty string when the key is absent.\<close>

definition index :: "(string \<rightharpoonup> string) \<Rightarrow> string \<Rightarrow> string" where
  "index m k = (case m k of Some v \<Rightarrow> v | None \<Rightarrow> [])"

section \<open>The cubecraft service (cubecraft/service.go)\<close>

record item =
  itID :: string
  itSlug :: string
  itTitle :: string
  itStatus :: string
  itCategory :: string
  itNetwork :: string
  itProjectLead :: string
  itCreatedAt :: time
  itUpdatedAt :: time
  itReleasedAt :: time
  itURL :: string
  itContentHTML :: string
  itContentText :: string

record ccService =
  ccSvcClient :: ccClient
  ccSvcTracker :: "item tracker"

definition ccNewService :: "ccClient \<Rightarrow> ccService" where
  "ccNewService c = \<lparr>ccSvcClient = c, ccSvcTracker = newTracker\<rparr>"

definition columnToStatus :: "string \<rightharpoonup> string list" where
  "columnToStatus = map_of
     [(''in-progress'', [''In Progress'']),
      (''coming-next'', [''Testing'']),
      (''released'', [''Released''])]"

text \<open>\<open>cubecraft.service.recordStatusChanges\<close> and \<open>cubecraft.service.Updates\<close>.\<close>

definition recordStatusChanges :: "time \<Rightarrow> item list \<Rightarrow> item tracker \<Rightarrow> item tracker" where
  "recordStatusChanges = trackerRecord itID itStatus"

definition cubecraft_Updates :: "time \<Rightarrow> item tracker \<Rightarrow> item changeEntry list" where
  "cubecraft_Updates = trackerUpdates"

definition contains :: "string list \<Rightarrow> string \<Rightarrow> bool" where
  "contains arr v = (if length arr = 0 then True else v \<in> set arr)"

text \<open>The zero \<open>time.Time\<close>, 1 January of the year 1, and \<open>time.Unix(sec, 0)\<close>.\<close>

definition zeroTime :: time where
  "zeroTime = - 62135596800 * 1000000000"

definition Unix :: "int \<Rightarrow> time" where
  "Unix sec = sec * 1000000000"

definition isoOrEmpty :: "env \<Rightarrow> time \<Rightarrow> string" where
  "isoOrEmpty e t = (if t = zeroTime then [] else formatRFC3339 e t)"

definition normalizeSort :: "env \<Rightarrow> string \<Rightarrow> string \<Rightarrow> string" where
  "normalizeSort e inp column =
     (let inp' = ToLower e (utf8Encode e (TrimSpace (utf8Decode e inp))) in
      if inp' \<in> set [''releasedat:asc'', ''releasedat:desc'', ''lastupdated:asc'',
                      ''lastupdated:desc'', ''createdat:asc'', ''createdat:desc'',
                      ''title:asc'', ''title:desc'']
      then inp'
      else if ToLower e column = ''released'' then ''releasedat:desc''
      else if ToLower e column = ''in-progress'' \<or> ToLower e column = ''coming-next''
      then ''lastupdated:desc''
      else ''title:asc'')"

definition mapStatusLabel :: "string \<Rightarrow> string" where
  "mapStatusLabel notionStatus =
     (if notionStatus = ''In Progress'' then ''In Progress''
      else if notionStatus = ''Released'' then ''Released''
      else if notionStatus = ''Testing'' then ''Coming Next...''
      else if notionStatus = ''Information'' then ''Information''
      else notionStatus)"

text \<open>
  The body of the loop \<open>for _, c := range cards\<close> of \<open>All\<close>: no item when the status is
  not among the target statuses (\<open>continue\<close>), one item otherwise. The division of the
  \<open>int64\<close> milliseconds by 1000 truncates towards zero.
\<close>

definition cardItem :: "env \<Rightarrow> string list \<Rightarrow> Card \<Rightarrow> item list" where
  "cardItem e targetStatuses c =
     (let props = renameMap (cardProperties c);
          status = index props ''status''
      in if \<not> contains targetStatuses status then []
         else
           (let createdAt = Unix (cardCreatedAt c sdiv 1000);
                updatedAt = Unix (cardUpdatedAt c sdiv 1000);
                releasedAt =
                  (if index props ''releasedAt'' \<noteq> []
                   then (case parseDate e (index props ''releasedAt'') of
                           Some t \<Rightarrow> t
                         | None \<Rightarrow> zeroTime)
                   else zeroTime)
            in [\<lparr>itID = cardID c, itSlug = cardID c, itTitle = cardTitle c,
                  itStatus = mapStatusLabel status, itCategory = index props ''category'',
                  itNetwork = index props ''network'',
                  itProjectLead = index props ''projectLead'',
                  itCreatedAt = createdAt, itUpdatedAt = updatedAt, itReleasedAt = releasedAt,
                  itURL = cardURL c, itContentHTML = [], itContentText = []\<rparr>]))"

text \<open>The comparison function handed to \<open>sort.SliceStable\<close>.\<close>

definition sortLess :: "env \<Rightarrow> string \<Rightarrow> item \<Rightarrow> item \<Rightarrow> bool" where
  "sortLess e sortBy a b =
     (if sortBy = ''releasedat:asc'' then Before (itReleasedAt a) (itReleasedAt b)
      else if sortBy = ''releasedat:desc'' then After (itReleasedAt a) (itReleasedAt b)
      else if sortBy = ''lastupdated:asc'' then Before (itUpdatedAt a) (itUpdatedAt b)
      else if sortBy = ''lastupdated:desc'' then After (itUpdatedAt a) (itUpdatedAt b)
      else if sortBy = ''createdat:asc'' then Before (itCreatedAt a) (itCreatedAt b)
      else if sortBy = ''createdat:desc'' then After (itCreatedAt a) (itCreatedAt b)
      else if sortBy = ''title:desc'' then ToLower e (itTitle a) > ToLower e (itTitle b)
      else ToLower e (itTitle a) < ToLower e (itTitle b))"

text \<open>
  \<open>sort.SliceStable\<close>: the stable sort. Each element goes behind the elements already
  placed that are not greater, so elements that compare equal keep their order.
\<close>

fun insertStable :: "('a \<Rightarrow> 'a \<Rightarrow> bool) \<Rightarrow> 'a \<Rightarrow> 'a list \<Rightarrow> 'a list" where
  "insertStable lt x [] = [x]"
| "insertStable lt x (y # ys) =
     (if lt x y then x # y # ys else y # insertStable lt x ys)"

definition SliceStable :: "('a \<Rightarrow> 'a \<Rightarrow> bool) \<Rightarrow> 'a list \<Rightarrow> 'a list" where
  "SliceStable lt xs = foldl (\<lambda>acc x. insertStable lt x acc) [] xs"

text \<open>
  Go's \<open>int\<close> has 64 bits and its arithmetic wraps around: \<open>wrap64\<close> is the value a sum
  has in an \<open>int\<close>. The division \<open>/\<close> truncates towards zero (\<open>sdiv\<close>).
\<close>

definition wrap64 :: "int \<Rightarrow> int" where
  "wrap64 x = (x + 2 ^ 63) mod 2 ^ 64 - 2 ^ 63"

definition itemDTO :: "env \<Rightarrow> int \<Rightarrow> item \<Rightarrow> RoadmapItem" where
  "itemDTO e p it =
     \<lparr>ID = itID it, Slug = itSlug it, Title = itTitle it, Status = itStatus it,
      Category = itCategory it, Upvotes = 0,
      Date = formatRFC3339 e (itCreatedAt it),
      LastModified = formatRFC3339 e (itUpdatedAt it),
      Pinned = False,
      ETA = isoOrEmpty e (itReleasedAt it),
      ContentHTML = itContentHTML it, ContentText = itContentText it,
      ItemPage = p, Network = itNetwork it, ProjectLead = itProjectLead it, URL = itURL it\<rparr>"

text \<open>
  The loop \<open>for p, offset := 1, 0; offset < total; p, offset = p+1, offset+limit\<close> of
  \<open>All\<close>; \<open>n\<close> is the variable \<open>total\<close>. The slice expression \<open>items[offset:end]\<close>
  panics when \<open>offset\<close> is negative or above \<open>end\<close>. When \<open>offset + limit\<close> is
  \<open>offset\<close> again the loop goes round for ever; \<open>All\<close> never calls it so.
\<close>

function pagesLoop :: "env \<Rightarrow> item list \<Rightarrow> int \<Rightarrow> int \<Rightarrow> int \<Rightarrow> int \<Rightarrow> error + RoadmapPage list" where
  "pagesLoop e items n limit p offset =
     (if offset < n then
        (let end0 = wrap64 (offset + limit);
             end1 = (if end0 > n then n else end0)
         in if offset < 0 \<or> end1 < offset then Inl Panic
            else if end0 = offset then Inl Blocked
            else
              (let pageItems = take (nat (end1 - offset)) (drop (nat offset) items);
                   dto = map (itemDTO e p) pageItems;
                   pg = \<lparr>Meta = \<lparr>Page = p, Limit = limit,
                                  TotalPages = wrap64 (n + limit - 1) sdiv limit,
                                  TotalResults = n\<rparr>,
                         Items = dto\<rparr>
               in case pagesLoop e items n limit (p + 1) end0 of
                    Inl err \<Rightarrow> Inl err
                  | Inr pages \<Rightarrow> Inr (pg # pages)))
      else Inr [])"
  by pat_completeness auto
termination
  by (relation "measure (\<lambda>(e, items, n, limit, p, offset). nat (n - offset))")
     (auto split: if_splits)

declare pagesLoop.simps [simp del]

text \<open>
  \<open>service.All\<close>. \<open>now\<close> and \<open>now'\<close> are the clock readings inside \<open>Fetch\<close>, \<open>t\<close> the
  one of \<open>recordStatusChanges\<close>. \<open>make\<close> panics on a negative capacity.
\<close>

definition cubecraft_All ::
  "env \<Rightarrow> time \<Rightarrow> time \<Rightarrow> time \<Rightarrow> string \<Rightarrow> int \<Rightarrow> string \<Rightarrow> ccService
     \<Rightarrow> (error + RoadmapPage list) \<times> ccService" where
  "cubecraft_All e now now' t column limit0 sortBy0 s =
     (let limit = (if limit0 \<le> 0 then 10 else limit0) in
      case Fetch e now now' (ccSvcClient s) of
        (Inl err, c') \<Rightarrow> (Inl err, s\<lparr>ccSvcClient := c'\<rparr>)
      | (Inr cards, c') \<Rightarrow>
          (let s1 = s\<lparr>ccSvcClient := c'\<rparr>;
               targetStatuses = (case columnToStatus (ToLower e column) of
                                   Some ts \<Rightarrow> ts
                                 | None \<Rightarrow> []);
               items0 = concat (map (cardItem e targetStatuses) cards);
               sortBy = normalizeSort e sortBy0 column;
               items = SliceStable (sortLess e sortBy) items0;
               n = int (length items)
           in if n = 0
              then (Inr [\<lparr>Meta = \<lparr>Page = 1, Limit = limit, TotalPages = 1, TotalResults = 0\<rparr>,
                          Items = []\<rparr>], s1)
              else
                (let s2 = s1\<lparr>ccSvcTracker := recordStatusChanges t items (ccSvcTracker s1)\<rparr>
                 in if wrap64 (n + limit - 1) sdiv limit < 0 then (Inl Panic, s2)
                    else (pagesLoop e items n limit 1 0, s2))))"

text \<open>\<open>service.Page\<close>.\<close>

definition cubecraft_Page ::
  "env \<Rightarrow> time \<Rightarrow> time \<Rightarrow> time \<Rightarrow> string \<Rightarrow> int \<Rightarrow> int \<Rightarrow> string \<Rightarrow> ccService
     \<Rightarrow> (error + RoadmapPage) \<times> ccService" where
  "cubecraft_Page e now now' t column page0 limit sortBy s =
     (case cubecraft_All e now now' t column limit sortBy s of
        (Inl err, s') \<Rightarrow> (Inl err, s')
      | (Inr allPages, s') \<Rightarrow>
          (let page = (if page0 \<le> 0 then 1 else page0) in
           if page > int (length allPages)
           then (Inr \<lparr>Meta = \<lparr>Page = page, Limit = limit,
                              TotalPages = int (length allPages), TotalResults = 0\<rparr>,
                       Items = []\<rparr>, s')
           else (Inr (allPages ! nat (page - 1)), s')))"

section \<open>Specification-level definitions\<close>

text \<open>
  What the specification asks of one recorded item, compared with the previous-status
  index \<open>idx\<close>: no change entry when the identifier is unseen, no change entry when the
  status is the indexed one, and one entry from the indexed status to the new one
  otherwise.
\<close>

definition changeFor ::
  "('i \<Rightarrow> string) \<Rightarrow> ('i \<Rightarrow> string) \<Rightarrow> time \<Rightarrow> (string \<rightharpoonup> string) \<Rightarrow> 'i \<Rightarrow> 'i changeEntry list" where
  "changeFor idOf statusOf now idx it =
     (case idx (idOf it) of
        None \<Rightarrow> []
      | Some prev \<Rightarrow>
          if prev = statusOf it then []
          else [\<lparr>At = now, From = prev, To = statusOf it, Item = it\<rparr>])"

text \<open>
  The index the specification asks for after a record call: the status of every recorded
  item is stored under its identifier, the other entries stay.
\<close>

definition indexAfter ::
  "('i \<Rightarrow> string) \<Rightarrow> ('i \<Rightarrow> string) \<Rightarrow> (string \<rightharpoonup> string) \<Rightarrow> 'i list \<Rightarrow> (string \<rightharpoonup> string)" where
  "indexAfter idOf statusOf idx items = idx ++ map_of (map (\<lambda>it. (idOf it, statusOf it)) items)"

text \<open>
  An item set in which the items that share an identifier carry the same status; a set
  with pairwise distinct identifiers is one.
\<close>

definition sameStatus :: "('i \<Rightarrow> string) \<Rightarrow> ('i \<Rightarrow> string) \<Rightarrow> 'i list \<Rightarrow> bool" where
  "sameStatus idOf statusOf items =
     (\<forall>x\<in>set items. \<forall>y\<in>set items. idOf x = idOf y \<longrightarrow> statusOf x = statusOf y)"

text \<open>
  A history of the tracker: the calls of the record operation and of \<open>Updates\<close> in the
  order in which they take the mutex, each with its clock reading, from the state of
  \<open>NewService\<close>.
\<close>

datatype 'i trackerCall = CallRecord time "'i list" | CallUpdates time

fun trackerStep ::
  "('i \<Rightarrow> string) \<Rightarrow> ('i \<Rightarrow> string) \<Rightarrow> 'i tracker \<Rightarrow> 'i trackerCall \<Rightarrow> 'i tracker" where
  "trackerStep idOf statusOf s (CallRecord now items) = trackerRecord idOf statusOf now items s"
| "trackerStep idOf statusOf s (CallUpdates now) = s"

definition trackerRun ::
  "('i \<Rightarrow> string) \<Rightarrow> ('i \<Rightarrow> string) \<Rightarrow> 'i trackerCall list \<Rightarrow> 'i tracker" where
  "trackerRun idOf statusOf calls = foldl (trackerStep idOf statusOf) newTracker calls"

fun recordTimes :: "'i trackerCall list \<Rightarrow> time list" where
  "recordTimes [] = []"
| "recordTimes (CallRecord now items # cs) = now # recordTimes cs"
| "recordTimes (CallUpdates now # cs) = recordTimes cs"

definition logInvariant :: "'i changeEntry list \<Rightarrow> bool" where
  "logInvariant us = ((\<forall>e\<in>set us. From e \<noteq> To e) \<and> sorted (map At us))"

section \<open>Sample inputs\<close>

text \<open>The concrete values at which the theorems below are instantiated.\<close>

definition sampleItem :: "string \<Rightarrow> string \<Rightarrow> RoadmapItem" where
  "sampleItem i st =
     \<lparr>ID = i, Slug = i, Title = [], Status = st, Category = [], Upvotes = 0, Date = [],
      LastModified = [], Pinned = False, ETA = [], ContentHTML = [], ContentText = [],
      ItemPage = 1, Network = [], ProjectLead = [], URL = []\<rparr>"

definition sampleEntry :: "time \<Rightarrow> RoadmapItem changeEntry" where
  "sampleEntry t = \<lparr>At = t, From = ''In Progress'', To = ''Released'',
                    Item = sampleItem ''x'' ''Released''\<rparr>"

definition sampleCardItem :: "string \<Rightarrow> string \<Rightarrow> item" where
  "sampleCardItem i st =
     \<lparr>itID = i, itSlug = i, itTitle = i, itStatus = st, itCategory = [], itNetwork = [],
      itProjectLead = [], itCreatedAt = 0, itUpdatedAt = 0, itReleasedAt = zeroTime, itURL = [],
      itContentHTML = [], itContentText = []\<rparr>"

text \<open>
  An environment for the sample inputs: \<open>strings.ToLower\<close> and the UTF-8 coding as they
  are on ASCII text, dates that do not parse, and the given upstream behaviour.
\<close>

definition asciiLower :: "string \<Rightarrow> string" where
  "asciiLower s =
     map (\<lambda>c. if CHR ''A'' \<le> c \<and> c \<le> CHR ''Z'' then char_of (of_char c + (32::nat)) else c) s"

definition sampleEnv ::
  "(hiveURL \<Rightarrow> httpOutcome) \<Rightarrow> (string \<Rightarrow> hiveResponse option) \<Rightarrow> httpOutcome
     \<Rightarrow> (string \<Rightarrow> Card list option) \<Rightarrow> env" where
  "sampleEnv up dec nup ndec =
     \<lparr>ToLower = asciiLower, utf8Decode = runes, utf8Encode = map char_of,
      parseDate = (\<lambda>s. None), formatRFC3339 = (\<lambda>t. []),
      hiveUpstream = up, hiveUnmarshal = dec, notionUpstream = nup, notionDecode = ndec\<rparr>"

definition sampleURL :: "int \<Rightarrow> hiveURL" where
  "sampleURL p =
     \<lparr>uBase = ''https://updates.playhive.com/api/v1/submission'',
      uS = ''67489361029fa6e5e4579b21'', uSortBy = ''upvotes:desc'', uInReview = False,
      uIncludePinned = True, uPage = p\<rparr>"

definition sampleQuery :: "string \<Rightarrow> int \<Rightarrow> Query" where
  "sampleQuery col p =
     \<lparr>qColumn = col, qPage = p, qSortBy = ''upvotes:desc'', qInReview = False,
      qIncludePinned = True, qRaw = False, qBypassCache = False\<rparr>"

text \<open>
  A provider with three pages of one submission each: the body of page \<open>p\<close> is the
  text \<open>pageBody p\<close>, which \<open>decodePage\<close> decodes. \<open>threePagesFail2\<close> is the same
  provider when the request for page 2 fails in transport.
\<close>

definition pageBody :: "int \<Rightarrow> string" where
  "pageBody p = (if p = 1 then ''page1'' else if p = 2 then ''page2'' else ''page3'')"

definition sampleSubmission :: "string \<Rightarrow> hiveSubmission" where
  "sampleSubmission i =
     \<lparr>subID = i, subSlug = i, subTitle = [], subContentHTML = [], subUpvotes = 0, subDate = [],
      subLastModified = [], subPinned = False, subEta = None, subPostStatus = Some ''Released'',
      subPostCategory = None\<rparr>"

definition samplePage :: "int \<Rightarrow> hiveResponse" where
  "samplePage p =
     \<lparr>hrResults = [sampleSubmission (pageBody p)], hrPage = p, hrLimit = 1, hrTotalPages = 3,
      hrTotalResults = 3\<rparr>"

definition decodePage :: "string \<Rightarrow> hiveResponse option" where
  "decodePage raw =
     (if raw = ''page1'' then Some (samplePage 1)
      else if raw = ''page2'' then Some (samplePage 2)
      else if raw = ''page3'' then Some (samplePage 3)
      else None)"

definition threePages :: "hiveURL \<Rightarrow> httpOutcome" where
  "threePages u = Response 200 (pageBody (uPage u)) True"

definition threePagesFail2 :: "hiveURL \<Rightarrow> httpOutcome" where
  "threePagesFail2 u = (if uPage u = 2 then DoFailed else Response 200 (pageBody (uPage u)) True)"

definition noCards :: "string \<Rightarrow> Card list option" where
  "noCards raw = None"

text \<open>Two completion orders of the workers: the order of the jobs, and its reverse.\<close>

definition inOrder :: "int list \<Rightarrow> int list" where
  "inOrder js = js"

definition reversed :: "int list \<Rightarrow> int list" where
  "reversed js = rev js"

text \<open>The hive client as \<open>NewRouter\<close> builds it.\<close>

definition routerClient :: Client where
  "routerClient =
     NewClient ''https://updates.playhive.com/api/v1/submission''
       [WithCacheTTL (30 * 1000000000), WithMaxConcurrency 4]"

text \<open>
  The outcomes of the jobs in the order in which they finish, with the client state
  threaded through them as \<open>FetchAllPages\<close> does.
\<close>

fun outcomes :: "fetcher \<Rightarrow> Query \<Rightarrow> Client \<Rightarrow> int list \<Rightarrow> (error + hiveResponse \<times> string) list" where
  "outcomes fp base c [] = []"
| "outcomes fp base c (p # ps) =
     fst (fp (base\<lparr>qPage := p\<rparr>) c) # outcomes fp base (snd (fp (base\<lparr>qPage := p\<rparr>) c)) ps"

text \<open>
  Cards of the Notion board with the status column \<open>3E6J\<close> set, the answers of a
  provider that holds one released card, four released cards or one scrapped card, and
  the cubecraft service as \<open>NewRouter\<close> builds it.
\<close>

definition sampleCard :: "string \<Rightarrow> string \<Rightarrow> Card" where
  "sampleCard i st =
     \<lparr>cardID = i, cardTitle = i, cardURL = [], cardProperties = [(''3E6J'', st)],
      cardCreatedAt = 0, cardUpdatedAt = 0, cardReleasedAt = []\<rparr>"

definition oneReleased :: "string \<Rightarrow> Card list option" where
  "oneReleased raw = Some [sampleCard ''a'' ''Released'']"

definition fourReleased :: "string \<Rightarrow> Card list option" where
  "fourReleased raw =
     Some [sampleCard ''a'' ''Released'', sampleCard ''b'' ''Released'',
           sampleCard ''c'' ''Released'', sampleCard ''d'' ''Released'']"

definition oneScrapped :: "string \<Rightarrow> Card list option" where
  "oneScrapped raw = Some [sampleCard ''a'' ''Scrapped'']"

definition notionEnv :: "(string \<Rightarrow> Card list option) \<Rightarrow> env" where
  "notionEnv ndec = sampleEnv threePages decodePage (Response 200 ''{}'' True) ndec"

definition routerService :: ccService where
  "routerService = ccNewService (ccNewClient [ccWithCacheTTL (120 * 1000000000)])"

text \<open>
  The integer ceiling of \<open>n / l\<close>, for the page count \<open>max(1, ceil(N/L))\<close> of the
  specification.
\<close>

definition ceilDiv :: "int \<Rightarrow> int \<Rightarrow> int" where
  "ceilDiv n l = - ((- n) div l)"

definition specTotalPages :: "int \<Rightarrow> int \<Rightarrow> int" where
  "specTotalPages n l = max 1 (ceilDiv n l)"

text \<open>The items of \<open>All\<close> after the filter by column, before they are sorted.\<close>

definition filterCards :: "env \<Rightarrow> string \<Rightarrow> Card list \<Rightarrow> item list" where
  "filterCards e column cards =
     concat (map (cardItem e (case columnToStatus (ToLower e column) of
                                Some ts \<Rightarrow> ts
                              | None \<Rightarrow> [])) cards)"

section \<open>Properties of the change tracker\<close>

lemma Hour_pos: "0 < Hour"
  by (simp add: Hour_def)

lemma recordItem_eq:
  "recordItem idOf statusOf now s it =
     \<lparr>prevStatus = (if prevStatus s (idOf it) = Some (statusOf it) then prevStatus s
                     else (prevStatus s)(idOf it \<mapsto> statusOf it)),
      updates = updates s @ changeFor idOf statusOf now (prevStatus s) it\<rparr>"
  by (simp add: recordItem_def changeFor_def split: option.splits)

lemma recordItem_prev_self:
  "prevStatus (recordItem idOf statusOf now s it) (idOf it) = Some (statusOf it)"
  by (simp add: recordItem_eq)

lemma recordItem_prev_other:
  "k \<noteq> idOf it \<Longrightarrow> prevStatus (recordItem idOf statusOf now s it) k = prevStatus s k"
  by (simp add: recordItem_eq)

lemma changeFor_cong:
  "idx (idOf it) = idx' (idOf it) \<Longrightarrow>
   changeFor idOf statusOf now idx it = changeFor idOf statusOf now idx' it"
  by (simp add: changeFor_def)

text \<open>
  With pairwise distinct identifiers every item of the loop meets the index as it was
  before the loop, which gives the loop a closed form.
\<close>

lemma foldl_recordItem_distinct:
  "distinct (map idOf items) \<Longrightarrow>
   foldl (recordItem idOf statusOf now) s items =
     \<lparr>prevStatus = indexAfter idOf statusOf (prevStatus s) items,
      updates = updates s @ concat (map (changeFor idOf statusOf now (prevStatus s)) items)\<rparr>"
proof (induction items arbitrary: s)
  case Nil
  then show ?case by (simp add: indexAfter_def)
next
  case (Cons it items)
  let ?s1 = "recordItem idOf statusOf now s it"
  let ?kv = "\<lambda>it. (idOf it, statusOf it)"
  have notin: "idOf it \<notin> idOf ` set items" and d: "distinct (map idOf items)"
    using Cons.prems by auto
  have same: "map (changeFor idOf statusOf now (prevStatus ?s1)) items
            = map (changeFor idOf statusOf now (prevStatus s)) items"
  proof (rule map_cong [OF refl])
    fix x assume "x \<in> set items"
    then have "idOf x \<noteq> idOf it" using notin by (metis imageI)
    then show "changeFor idOf statusOf now (prevStatus ?s1) x
             = changeFor idOf statusOf now (prevStatus s) x"
      by (intro changeFor_cong recordItem_prev_other)
  qed
  have nd: "idOf it \<notin> dom (map_of (map ?kv items))"
    using notin by (auto simp: dom_map_of_conv_image_fst image_image)
  have pm: "indexAfter idOf statusOf (prevStatus ?s1) items
          = indexAfter idOf statusOf (prevStatus s) (it # items)"
  proof (rule ext)
    fix k
    show "indexAfter idOf statusOf (prevStatus ?s1) items k
        = indexAfter idOf statusOf (prevStatus s) (it # items) k"
      using nd
      by (cases "k = idOf it")
         (auto simp: indexAfter_def map_add_def recordItem_prev_self recordItem_prev_other domIff
               split: option.splits)
  qed
  have "foldl (recordItem idOf statusOf now) s (it # items)
      = foldl (recordItem idOf statusOf now) ?s1 items" by simp
  also have "\<dots> = \<lparr>prevStatus = indexAfter idOf statusOf (prevStatus ?s1) items,
      updates = updates ?s1 @ concat (map (changeFor idOf statusOf now (prevStatus ?s1)) items)\<rparr>"
    by (rule Cons.IH [OF d])
  also have "\<dots> = \<lparr>prevStatus = indexAfter idOf statusOf (prevStatus s) (it # items),
      updates = updates s @ concat (map (changeFor idOf statusOf now (prevStatus s)) (it # items))\<rparr>"
    unfolding same pm by (simp add: recordItem_eq)
  finally show ?case .
qed

lemma foldl_recordItem_noop:
  "\<forall>it\<in>set items. prevStatus s (idOf it) = Some (statusOf it) \<Longrightarrow>
   foldl (recordItem idOf statusOf now) s items = s"
  by (induction items arbitrary: s) (simp_all add: recordItem_def)

lemma trackerRecord_distinct:
  assumes "distinct (map idOf items)"
  shows "trackerRecord idOf statusOf now items s =
     \<lparr>prevStatus = indexAfter idOf statusOf (prevStatus s) items,
      updates = keepRecent (Add now (- 24 * Hour)) (updates s)
                @ concat (map (changeFor idOf statusOf now (prevStatus s)) items)\<rparr>"
  unfolding trackerRecord_def Let_def
  by (subst foldl_recordItem_distinct [OF assms]) simp

lemma trackerRecord_again:
  assumes "distinct (map idOf items)"
  shows "trackerRecord idOf statusOf now' items (trackerRecord idOf statusOf now items s) =
         (trackerRecord idOf statusOf now items s)
           \<lparr>updates := keepRecent (Add now' (- 24 * Hour))
                         (updates (trackerRecord idOf statusOf now items s))\<rparr>"
proof -
  let ?s1 = "trackerRecord idOf statusOf now items s"
  let ?kv = "\<lambda>it. (idOf it, statusOf it)"
  have "\<forall>it\<in>set items. prevStatus ?s1 (idOf it) = Some (statusOf it)"
  proof
    fix it assume "it \<in> set items"
    then have "(idOf it, statusOf it) \<in> set (map ?kv items)" by force
    moreover have "distinct (map fst (map ?kv items))"
      using assms by (simp add: comp_def)
    ultimately have "map_of (map ?kv items) (idOf it) = Some (statusOf it)"
      by (rule map_of_is_SomeI [rotated])
    then show "prevStatus ?s1 (idOf it) = Some (statusOf it)"
      by (simp add: trackerRecord_distinct [OF assms] indexAfter_def map_add_def)
  qed
  then have "\<forall>it\<in>set items.
      prevStatus (?s1\<lparr>updates := keepRecent (Add now' (- 24 * Hour)) (updates ?s1)\<rparr>) (idOf it)
      = Some (statusOf it)" by simp
  from foldl_recordItem_noop [OF this] show ?thesis
    by (simp add: trackerRecord_def [of idOf statusOf now'] Let_def)
qed

text \<open>Whatever the items are, a record call prunes the log and then only appends.\<close>

lemma foldl_recordItem_updates:
  "\<exists>new. updates (foldl (recordItem idOf statusOf now) s items) = updates s @ new
        \<and> (\<forall>e\<in>set new. At e = now \<and> From e \<noteq> To e)"
proof (induction items arbitrary: s)
  case Nil
  then show ?case by simp
next
  case (Cons it items)
  let ?s1 = "recordItem idOf statusOf now s it"
  obtain new where n: "updates (foldl (recordItem idOf statusOf now) ?s1 items) = updates ?s1 @ new"
      "\<forall>e\<in>set new. At e = now \<and> From e \<noteq> To e"
    using Cons.IH [of ?s1] by blast
  have c: "\<forall>e\<in>set (changeFor idOf statusOf now (prevStatus s) it). At e = now \<and> From e \<noteq> To e"
    by (auto simp: changeFor_def split: option.splits)
  have "updates (foldl (recordItem idOf statusOf now) s (it # items))
        = updates s @ (changeFor idOf statusOf now (prevStatus s) it @ new)"
    using n(1) by (simp add: recordItem_eq)
  moreover have "\<forall>e\<in>set (changeFor idOf statusOf now (prevStatus s) it @ new).
      At e = now \<and> From e \<noteq> To e"
    using n(2) c by auto
  ultimately show ?case by blast
qed

lemma trackerRecord_updates:
  "\<exists>new. updates (trackerRecord idOf statusOf now items s)
            = keepRecent (Add now (- 24 * Hour)) (updates s) @ new
        \<and> (\<forall>e\<in>set new. At e = now \<and> From e \<noteq> To e)"
  using foldl_recordItem_updates
    [of idOf statusOf now "s\<lparr>updates := keepRecent (Add now (- 24 * Hour)) (updates s)\<rparr>" items]
  by (simp add: trackerRecord_def Let_def)

text \<open>
  Items that share an identifier with the same status: after the loop the index holds the
  status of every item of the loop, so a second loop over the same items changes nothing.
\<close>

lemma sameStatusD:
  assumes "sameStatus idOf statusOf items" and "x \<in> set items" and "y \<in> set items"
    and "idOf x = idOf y"
  shows "statusOf x = statusOf y"
proof -
  from assms(1) have "\<forall>x\<in>set items. \<forall>y\<in>set items. idOf x = idOf y \<longrightarrow> statusOf x = statusOf y"
    by (simp only: sameStatus_def)
  with assms(2,3,4) show ?thesis by blast
qed

lemma sameStatusI:
  assumes "\<And>x y. x \<in> set items \<Longrightarrow> y \<in> set items \<Longrightarrow> idOf x = idOf y \<Longrightarrow> statusOf x = statusOf y"
  shows "sameStatus idOf statusOf items"
  unfolding sameStatus_def using assms by blast

lemma distinct_sameStatus:
  assumes "distinct (map idOf items)"
  shows "sameStatus idOf statusOf items"
proof (rule sameStatusI)
  fix x y assume a: "x \<in> set items" "y \<in> set items" "idOf x = idOf y"
  have "inj_on idOf (set items)" using assms by (simp add: distinct_map)
  from this a(3) a(1) a(2) have "x = y" by (rule inj_onD)
  then show "statusOf x = statusOf y" by simp
qed

lemma sameStatus_butlast:
  assumes "sameStatus idOf statusOf (items @ [x])"
  shows "sameStatus idOf statusOf items"
proof (rule sameStatusI)
  fix a b assume "a \<in> set items" "b \<in> set items" "idOf a = idOf b"
  then show "statusOf a = statusOf b"
    using sameStatusD [OF assms, of a b] by simp
qed

lemma sameStatus_last:
  assumes "sameStatus idOf statusOf (items @ [x])" and "it \<in> set (items @ [x])"
    and "idOf it = idOf x"
  shows "statusOf it = statusOf x"
  using sameStatusD [OF assms(1), of it x] assms(2,3) by simp

lemma foldl_recordItem_index:
  "sameStatus idOf statusOf items \<Longrightarrow>
   \<forall>it\<in>set items. prevStatus (foldl (recordItem idOf statusOf now) s items) (idOf it)
     = Some (statusOf it)"
proof (induction items rule: rev_induct)
  case Nil
  then show ?case by simp
next
  case (snoc x items)
  let ?r = "foldl (recordItem idOf statusOf now) s items"
  have ss: "sameStatus idOf statusOf items"
    using snoc.prems by (rule sameStatus_butlast)
  have ih: "\<forall>it\<in>set items. prevStatus ?r (idOf it) = Some (statusOf it)"
    by (rule snoc.IH [OF ss])
  have f: "foldl (recordItem idOf statusOf now) s (items @ [x]) = recordItem idOf statusOf now ?r x"
    by simp
  show ?case
  proof
    fix it assume m: "it \<in> set (items @ [x])"
    show "prevStatus (foldl (recordItem idOf statusOf now) s (items @ [x])) (idOf it)
        = Some (statusOf it)"
    proof (cases "idOf it = idOf x")
      case True
      have st: "statusOf it = statusOf x"
        using snoc.prems m True by (rule sameStatus_last)
      show ?thesis unfolding f True st by (rule recordItem_prev_self)
    next
      case False
      then have "it \<in> set items" using m by auto
      then have "prevStatus ?r (idOf it) = Some (statusOf it)" using ih by blast
      moreover have "prevStatus (recordItem idOf statusOf now ?r x) (idOf it) = prevStatus ?r (idOf it)"
        using False by (rule recordItem_prev_other [where k = "idOf it" and idOf = idOf and it = x])
      ultimately show ?thesis unfolding f by simp
    qed
  qed
qed

lemma trackerRecord_sameStatus:
  assumes "sameStatus idOf statusOf items"
  shows "trackerRecord idOf statusOf now' items (trackerRecord idOf statusOf now items s) =
         (trackerRecord idOf statusOf now items s)
           \<lparr>updates := keepRecent (Add now' (- 24 * Hour))
                         (updates (trackerRecord idOf statusOf now items s))\<rparr>"
proof -
  let ?s1 = "trackerRecord idOf statusOf now items s"
  have "\<forall>it\<in>set items. prevStatus ?s1 (idOf it) = Some (statusOf it)"
    unfolding trackerRecord_def Let_def by (rule foldl_recordItem_index [OF assms])
  then have "\<forall>it\<in>set items.
      prevStatus (?s1\<lparr>updates := keepRecent (Add now' (- 24 * Hour)) (updates ?s1)\<rparr>) (idOf it)
      = Some (statusOf it)" by simp
  from foldl_recordItem_noop [OF this] show ?thesis
    by (simp add: trackerRecord_def [of idOf statusOf now'] Let_def)
qed

text \<open>
  The converse: a loop over items whose identifiers are all in the index, and that
  appends nothing, has found every item with its indexed status.
\<close>

lemma foldl_recordItem_quiet:
  assumes "updates (foldl (recordItem idOf statusOf now) r items) = updates r"
    and "\<forall>it\<in>set items. prevStatus r (idOf it) \<noteq> None"
  shows "\<forall>it\<in>set items. prevStatus r (idOf it) = Some (statusOf it)"
  using assms
proof (induction items arbitrary: r)
  case Nil
  then show ?case by simp
next
  case (Cons it items)
  let ?r1 = "recordItem idOf statusOf now r it"
  obtain prev where p: "prevStatus r (idOf it) = Some prev"
    using Cons.prems(2) by auto
  obtain new where n: "updates (foldl (recordItem idOf statusOf now) ?r1 items) = updates ?r1 @ new"
    using foldl_recordItem_updates [of idOf statusOf now ?r1 items] by blast
  have eq: "prev = statusOf it"
  proof (rule ccontr)
    assume "prev \<noteq> statusOf it"
    then have "updates ?r1 = updates r @ [\<lparr>At = now, From = prev, To = statusOf it, Item = it\<rparr>]"
      using p by (simp add: recordItem_def)
    then have "length (updates (foldl (recordItem idOf statusOf now) r (it # items)))
             > length (updates r)"
      using n by simp
    then show False using Cons.prems(1) by simp
  qed
  then have r1: "?r1 = r" using p by (simp add: recordItem_def)
  have "updates (foldl (recordItem idOf statusOf now) r items) = updates r"
    using Cons.prems(1) r1 by simp
  moreover have "\<forall>it\<in>set items. prevStatus r (idOf it) \<noteq> None"
    using Cons.prems(2) by simp
  ultimately have "\<forall>it\<in>set items. prevStatus r (idOf it) = Some (statusOf it)"
    by (rule Cons.IH)
  then show ?case using p eq by simp
qed

lemma foldl_recordItem_keeps_key:
  "prevStatus s k \<noteq> None \<Longrightarrow> prevStatus (foldl (recordItem idOf statusOf now) s items) k \<noteq> None"
proof (induction items arbitrary: s)
  case Nil
  then show ?case by simp
next
  case (Cons it items)
  have "prevStatus (recordItem idOf statusOf now s it) k \<noteq> None"
    using Cons.prems by (cases "k = idOf it") (simp_all add: recordItem_prev_self recordItem_prev_other)
  then show ?case using Cons.IH by simp
qed

lemma foldl_recordItem_seen:
  "\<forall>it\<in>set items. prevStatus (foldl (recordItem idOf statusOf now) s items) (idOf it) \<noteq> None"
proof (induction items arbitrary: s)
  case Nil
  then show ?case by simp
next
  case (Cons it items)
  let ?s1 = "recordItem idOf statusOf now s it"
  have "prevStatus ?s1 (idOf it) \<noteq> None" by (simp add: recordItem_prev_self)
  then have "prevStatus (foldl (recordItem idOf statusOf now) ?s1 items) (idOf it) \<noteq> None"
    by (rule foldl_recordItem_keeps_key)
  then show ?case using Cons.IH [of ?s1] by simp
qed

lemma trackerRecord_twice_iff:
  "(updates (trackerRecord idOf statusOf now' items (trackerRecord idOf statusOf now items s))
      = keepRecent (Add now' (- 24 * Hour)) (updates (trackerRecord idOf statusOf now items s)))
   = sameStatus idOf statusOf items"
proof
  let ?s1 = "trackerRecord idOf statusOf now items s"
  let ?r = "?s1\<lparr>updates := keepRecent (Add now' (- 24 * Hour)) (updates ?s1)\<rparr>"
  assume q: "updates (trackerRecord idOf statusOf now' items ?s1)
      = keepRecent (Add now' (- 24 * Hour)) (updates ?s1)"
  have u: "updates (foldl (recordItem idOf statusOf now') ?r items) = updates ?r"
    using q by (simp add: trackerRecord_def [of idOf statusOf now'] Let_def)
  have "\<forall>it\<in>set items. prevStatus ?s1 (idOf it) \<noteq> None"
    unfolding trackerRecord_def Let_def by (rule foldl_recordItem_seen)
  then have seen: "\<forall>it\<in>set items. prevStatus ?r (idOf it) \<noteq> None" by simp
  have "\<forall>it\<in>set items. prevStatus ?r (idOf it) = Some (statusOf it)"
    by (rule foldl_recordItem_quiet [OF u seen])
  then have idx: "\<And>it. it \<in> set items \<Longrightarrow> prevStatus ?r (idOf it) = Some (statusOf it)"
    by blast
  show "sameStatus idOf statusOf items"
  proof (rule sameStatusI)
    fix x y assume a: "x \<in> set items" "y \<in> set items" "idOf x = idOf y"
    have "Some (statusOf x) = prevStatus ?r (idOf x)" using idx [OF a(1)] by simp
    also have "\<dots> = Some (statusOf y)" using idx [OF a(2)] a(3) by simp
    finally show "statusOf x = statusOf y" by simp
  qed
next
  assume "sameStatus idOf statusOf items"
  from trackerRecord_sameStatus [OF this, of now' now s]
  show "updates (trackerRecord idOf statusOf now' items (trackerRecord idOf statusOf now items s))
      = keepRecent (Add now' (- 24 * Hour)) (updates (trackerRecord idOf statusOf now items s))"
    by simp
qed

lemma set_keepRecent: "set (keepRecent k us) = {e \<in> set us. k < At e}"
  by (auto simp: keepRecent_def After_def)

lemma set_trackerUpdates: "set (trackerUpdates now s) = {e \<in> set (updates s). now - 24 * Hour < At e}"
  by (simp add: trackerUpdates_def set_keepRecent Add_def)

lemma trackerRecord_window:
  assumes "e \<in> set (updates (trackerRecord idOf statusOf now items s))"
  shows "now - 24 * Hour < At e"
proof -
  obtain new where n: "updates (trackerRecord idOf statusOf now items s)
            = keepRecent (Add now (- 24 * Hour)) (updates s) @ new"
      "\<forall>e\<in>set new. At e = now \<and> From e \<noteq> To e"
    using trackerRecord_updates by blast
  from assms n show ?thesis using Hour_pos by (auto simp: set_keepRecent Add_def)
qed

lemma trackerRecord_keeps:
  assumes "e \<in> set (updates s)" and "now - 24 * Hour < At e"
  shows "e \<in> set (updates (trackerRecord idOf statusOf now items s))"
proof -
  obtain new where n: "updates (trackerRecord idOf statusOf now items s)
            = keepRecent (Add now (- 24 * Hour)) (updates s) @ new"
    using trackerRecord_updates by blast
  from assms show ?thesis unfolding n by (simp add: set_keepRecent Add_def)
qed

text \<open>The retention window of one tracker, for any way of reading identifier and status.\<close>

lemma tracker_window:
  "(\<exists>new. updates (trackerRecord idOf statusOf now items s)
             = keepRecent (Add now (- 24 * Hour)) (updates s) @ new
         \<and> (\<forall>e\<in>set new. At e = now))
   \<and> (\<forall>e\<in>set (updates (trackerRecord idOf statusOf now items s)). now - 24 * Hour < At e)
   \<and> set (trackerUpdates now s) = {e \<in> set (updates s). now - 24 * Hour < At e}
   \<and> (\<forall>e\<in>set (updates s). At e = now - (24 * Hour - 1) \<longrightarrow>
         e \<in> set (trackerUpdates now s)
         \<and> e \<in> set (updates (trackerRecord idOf statusOf now items s)))
   \<and> (\<forall>e. At e = now - (24 * Hour + 1) \<or> At e = now - 24 * Hour \<longrightarrow>
         e \<notin> set (trackerUpdates now s)
         \<and> e \<notin> set (updates (trackerRecord idOf statusOf now items s)))"
proof (intro conjI)
  show "\<exists>new. updates (trackerRecord idOf statusOf now items s)
             = keepRecent (Add now (- 24 * Hour)) (updates s) @ new
         \<and> (\<forall>e\<in>set new. At e = now)"
    using trackerRecord_updates [of idOf statusOf now items s] by blast
  show "\<forall>e\<in>set (updates (trackerRecord idOf statusOf now items s)). now - 24 * Hour < At e"
    using trackerRecord_window by blast
  show "set (trackerUpdates now s) = {e \<in> set (updates s). now - 24 * Hour < At e}"
    by (rule set_trackerUpdates)
  show "\<forall>e\<in>set (updates s). At e = now - (24 * Hour - 1) \<longrightarrow>
         e \<in> set (trackerUpdates now s)
         \<and> e \<in> set (updates (trackerRecord idOf statusOf now items s))"
  proof (intro ballI impI)
    fix e assume e: "e \<in> set (updates s)" "At e = now - (24 * Hour - 1)"
    then have "now - 24 * Hour < At e" by simp
    with e(1) show "e \<in> set (trackerUpdates now s)
         \<and> e \<in> set (updates (trackerRecord idOf statusOf now items s))"
      by (simp add: set_trackerUpdates trackerRecord_keeps)
  qed
  show "\<forall>e. At e = now - (24 * Hour + 1) \<or> At e = now - 24 * Hour \<longrightarrow>
         e \<notin> set (trackerUpdates now s)
         \<and> e \<notin> set (updates (trackerRecord idOf statusOf now items s))"
  proof (intro allI impI)
    fix e :: "'a changeEntry" assume "At e = now - (24 * Hour + 1) \<or> At e = now - 24 * Hour"
    then have "\<not> now - 24 * Hour < At e" by auto
    then show "e \<notin> set (trackerUpdates now s)
         \<and> e \<notin> set (updates (trackerRecord idOf statusOf now items s))"
      using trackerRecord_window [of e idOf statusOf now items s]
      by (auto simp: set_trackerUpdates)
  qed
qed

text \<open>The invariant of the log, for clock readings that do not decrease.\<close>

lemma sorted_const: "\<forall>x\<in>set xs. f x = (c::int) \<Longrightarrow> sorted (map f xs)"
  by (induction xs) auto

lemma logInvariant_keepRecent: "logInvariant us \<Longrightarrow> logInvariant (keepRecent k us)"
  by (auto simp: logInvariant_def keepRecent_def sorted_filter)

lemma trackerRecord_invariant:
  assumes "logInvariant (updates s)" and "\<forall>e\<in>set (updates s). At e \<le> now"
  shows "logInvariant (updates (trackerRecord idOf statusOf now items s))
       \<and> (\<forall>e\<in>set (updates (trackerRecord idOf statusOf now items s)). At e \<le> now)"
proof -
  obtain new where n: "updates (trackerRecord idOf statusOf now items s)
            = keepRecent (Add now (- 24 * Hour)) (updates s) @ new"
      "\<forall>e\<in>set new. At e = now \<and> From e \<noteq> To e"
    using trackerRecord_updates by blast
  have k: "logInvariant (keepRecent (Add now (- 24 * Hour)) (updates s))"
    using assms(1) by (rule logInvariant_keepRecent)
  have le: "\<forall>e\<in>set (keepRecent (Add now (- 24 * Hour)) (updates s)). At e \<le> now"
    using assms(2) by (simp add: set_keepRecent)
  have "sorted (map At new)" using n(2) by (intro sorted_const [of _ _ now]) simp
  then have "sorted (map At (keepRecent (Add now (- 24 * Hour)) (updates s) @ new))"
    using k le n(2) by (auto simp: sorted_append logInvariant_def)
  then show ?thesis using k le n by (auto simp: logInvariant_def)
qed

lemma trackerRun_invariant_gen:
  assumes "logInvariant (updates s)" and "\<forall>e\<in>set (updates s). At e \<le> t0"
    and "sorted (t0 # recordTimes calls)"
  shows "logInvariant (updates (foldl (trackerStep idOf statusOf) s calls))"
  using assms
proof (induction calls arbitrary: s t0)
  case Nil
  then show ?case by simp
next
  case (Cons c calls)
  show ?case
  proof (cases c)
    case (CallRecord now items)
    have le: "t0 \<le> now" and srt: "sorted (now # recordTimes calls)"
      using Cons.prems(3) CallRecord by auto
    have "\<forall>e\<in>set (updates s). At e \<le> now" using Cons.prems(2) le by force
    from trackerRecord_invariant [OF Cons.prems(1) this, of idOf statusOf items]
    show ?thesis using Cons.IH [of "trackerRecord idOf statusOf now items s" now] srt CallRecord
      by simp
  next
    case (CallUpdates now)
    then show ?thesis using Cons.IH [of s t0] Cons.prems by simp
  qed
qed

lemma trackerRun_invariant:
  assumes "sorted (recordTimes calls)"
  shows "logInvariant (updates (trackerRun idOf statusOf calls))
       \<and> (\<forall>now. logInvariant (trackerUpdates now (trackerRun idOf statusOf calls)))"
proof -
  have inv: "logInvariant (updates (trackerRun idOf statusOf calls))"
  proof (cases "recordTimes calls")
    case Nil
    have "sorted (0 # recordTimes calls)" by (simp add: Nil)
    from trackerRun_invariant_gen [of newTracker 0 calls idOf statusOf, OF _ _ this]
    show ?thesis by (simp add: trackerRun_def newTracker_def logInvariant_def)
  next
    case (Cons t ts)
    have "sorted (t # recordTimes calls)" using assms by (simp add: Cons)
    from trackerRun_invariant_gen [of newTracker t calls idOf statusOf, OF _ _ this]
    show ?thesis by (simp add: trackerRun_def newTracker_def logInvariant_def)
  qed
  then show ?thesis
    by (simp add: trackerUpdates_def Let_def logInvariant_keepRecent)
qed

text \<open>
  Whatever the clock readings are, every entry of the log records a change of status.
\<close>

lemma trackerRecord_changes:
  assumes "\<forall>e\<in>set (updates s). From e \<noteq> To e"
  shows "\<forall>e\<in>set (updates (trackerRecord idOf statusOf now items s)). From e \<noteq> To e"
proof -
  obtain new where n: "updates (trackerRecord idOf statusOf now items s)
            = keepRecent (Add now (- 24 * Hour)) (updates s) @ new"
      "\<forall>e\<in>set new. At e = now \<and> From e \<noteq> To e"
    using trackerRecord_updates by blast
  show ?thesis unfolding n(1) using assms n(2) by (auto simp: set_keepRecent)
qed

lemma foldl_trackerStep_changes:
  "\<forall>e\<in>set (updates s). From e \<noteq> To e \<Longrightarrow>
   \<forall>e\<in>set (updates (foldl (trackerStep idOf statusOf) s calls)). From e \<noteq> To e"
proof (induction calls arbitrary: s)
  case Nil
  then show ?case by simp
next
  case (Cons c calls)
  have "\<forall>e\<in>set (updates (trackerStep idOf statusOf s c)). From e \<noteq> To e"
    using Cons.prems by (cases c) (simp_all add: trackerRecord_changes)
  then show ?case using Cons.IH by simp
qed

lemma trackerRun_changes:
  "(\<forall>e\<in>set (updates (trackerRun idOf statusOf calls)). From e \<noteq> To e)
   \<and> (\<forall>now. \<forall>e\<in>set (trackerUpdates now (trackerRun idOf statusOf calls)). From e \<noteq> To e)"
proof -
  have a: "\<forall>e\<in>set (updates (trackerRun idOf statusOf calls)). From e \<noteq> To e"
    unfolding trackerRun_def by (rule foldl_trackerStep_changes) (simp add: newTracker_def)
  then show ?thesis by (simp add: trackerUpdates_def Let_def set_keepRecent)
qed

text \<open>
  Claim C4, as stated, fails on an item set that holds one identifier with two statuses:
  the loop compares every item with the index as the items before it have left it, not
  with the index of before the call. From the state of \<open>NewService\<close>, where the index has
  no entry for \<open>x\<close>, one call with \<open>x\<close> as in progress and \<open>x\<close> as released appends an
  entry, and a second call with the same items appends two more.
\<close>

theorem record_twice_counterexample:
  "prevStatus (newTracker :: RoadmapItem tracker) ''x'' = None
   \<and> updates (recordChanges 100 [sampleItem ''x'' ''In Progress'', sampleItem ''x'' ''Released'']
        newTracker)
     = [\<lparr>At = 100, From = ''In Progress'', To = ''Released'', Item = sampleItem ''x'' ''Released''\<rparr>]
   \<and> updates (recordChanges 200 [sampleItem ''x'' ''In Progress'', sampleItem ''x'' ''Released'']
        (recordChanges 100 [sampleItem ''x'' ''In Progress'', sampleItem ''x'' ''Released'']
           newTracker))
     = [\<lparr>At = 100, From = ''In Progress'', To = ''Released'', Item = sampleItem ''x'' ''Released''\<rparr>,
        \<lparr>At = 200, From = ''Released'', To = ''In Progress'',
         Item = sampleItem ''x'' ''In Progress''\<rparr>,
        \<lparr>At = 200, From = ''In Progress'', To = ''Released'', Item = sampleItem ''x'' ''Released''\<rparr>]"
  by (simp add: recordChanges_def trackerRecord_def recordItem_def keepRecent_def After_def
        Add_def Hour_def newTracker_def sampleItem_def)

text \<open>
  Claim C4, amended. The body of the loop of a record call treats an item by the
  previous-status index as it stands when the item is reached: an unseen identifier gets
  its status stored and no entry; an identifier whose indexed status differs gets exactly
  one entry from the indexed status to the new one, appended to the log, and the index
  updated; an identifier with the indexed status changes neither log nor index. A record
  call is the pruning followed by this loop. On items with pairwise distinct identifiers
  (the invariant of a result set) every item meets the index of before the call, so the
  log after the call is the pruned log followed by \<open>changeFor\<close> of each item and the
  index is \<open>indexAfter\<close>; recording the same items again appends nothing, the second
  call only prunes. In general the second call appends nothing exactly when the items
  that share an identifier carry the same status (\<open>sameStatus\<close>), as items with pairwise
  distinct identifiers do; the second call then only prunes. Stated for the hive service
  (\<open>recordChanges\<close>) and the cubecraft service (\<open>recordStatusChanges\<close>).
\<close>

theorem record_compares_with_index:
  "(prevStatus r (idOf it) = None \<longrightarrow>
      recordItem idOf statusOf now r it = r\<lparr>prevStatus := (prevStatus r)(idOf it \<mapsto> statusOf it)\<rparr>)
   \<and> (\<forall>prev. prevStatus r (idOf it) = Some prev \<and> prev \<noteq> statusOf it \<longrightarrow>
        recordItem idOf statusOf now r it =
          r\<lparr>updates := updates r @ [\<lparr>At = now, From = prev, To = statusOf it, Item = it\<rparr>],
            prevStatus := (prevStatus r)(idOf it \<mapsto> statusOf it)\<rparr>)
   \<and> (prevStatus r (idOf it) = Some (statusOf it) \<longrightarrow> recordItem idOf statusOf now r it = r)
   \<and> recordChanges now items s =
       foldl (recordItem ID Status now)
         (s\<lparr>updates := keepRecent (Add now (- 24 * Hour)) (updates s)\<rparr>) items
   \<and> recordStatusChanges now citems cs =
       foldl (recordItem itID itStatus now)
         (cs\<lparr>updates := keepRecent (Add now (- 24 * Hour)) (updates cs)\<rparr>) citems
   \<and> (distinct (map ID items) \<longrightarrow>
      recordChanges now items s =
        \<lparr>prevStatus = indexAfter ID Status (prevStatus s) items,
         updates = keepRecent (Add now (- 24 * Hour)) (updates s)
                   @ concat (map (changeFor ID Status now (prevStatus s)) items)\<rparr>
      \<and> recordChanges now' items (recordChanges now items s) =
          (recordChanges now items s)
            \<lparr>updates := keepRecent (Add now' (- 24 * Hour))
                          (updates (recordChanges now items s))\<rparr>)
   \<and> (distinct (map itID citems) \<longrightarrow>
      recordStatusChanges now citems cs =
        \<lparr>prevStatus = indexAfter itID itStatus (prevStatus cs) citems,
         updates = keepRecent (Add now (- 24 * Hour)) (updates cs)
                   @ concat (map (changeFor itID itStatus now (prevStatus cs)) citems)\<rparr>
      \<and> recordStatusChanges now' citems (recordStatusChanges now citems cs) =
          (recordStatusChanges now citems cs)
            \<lparr>updates := keepRecent (Add now' (- 24 * Hour))
                          (updates (recordStatusChanges now citems cs))\<rparr>)
   \<and> (sameStatus ID Status items \<longrightarrow>
      recordChanges now' items (recordChanges now items s) =
        (recordChanges now items s)
          \<lparr>updates := keepRecent (Add now' (- 24 * Hour))
                        (updates (recordChanges now items s))\<rparr>)
   \<and> ((updates (recordChanges now' items (recordChanges now items s))
         = keepRecent (Add now' (- 24 * Hour)) (updates (recordChanges now items s)))
       = sameStatus ID Status items)
   \<and> (distinct (map ID items) \<longrightarrow> sameStatus ID Status items)
   \<and> (sameStatus itID itStatus citems \<longrightarrow>
      recordStatusChanges now' citems (recordStatusChanges now citems cs) =
        (recordStatusChanges now citems cs)
          \<lparr>updates := keepRecent (Add now' (- 24 * Hour))
                        (updates (recordStatusChanges now citems cs))\<rparr>)
   \<and> ((updates (recordStatusChanges now' citems (recordStatusChanges now citems cs))
         = keepRecent (Add now' (- 24 * Hour)) (updates (recordStatusChanges now citems cs)))
       = sameStatus itID itStatus citems)
   \<and> (distinct (map itID citems) \<longrightarrow> sameStatus itID itStatus citems)"
proof -
  have b1: "prevStatus r (idOf it) = None \<longrightarrow>
      recordItem idOf statusOf now r it = r\<lparr>prevStatus := (prevStatus r)(idOf it \<mapsto> statusOf it)\<rparr>"
    and b2: "\<forall>prev. prevStatus r (idOf it) = Some prev \<and> prev \<noteq> statusOf it \<longrightarrow>
        recordItem idOf statusOf now r it =
          r\<lparr>updates := updates r @ [\<lparr>At = now, From = prev, To = statusOf it, Item = it\<rparr>],
            prevStatus := (prevStatus r)(idOf it \<mapsto> statusOf it)\<rparr>"
    and b3: "prevStatus r (idOf it) = Some (statusOf it) \<longrightarrow> recordItem idOf statusOf now r it = r"
    by (simp_all add: recordItem_def)
  have loop: "recordChanges now items s =
       foldl (recordItem ID Status now)
         (s\<lparr>updates := keepRecent (Add now (- 24 * Hour)) (updates s)\<rparr>) items"
    "recordStatusChanges now citems cs =
       foldl (recordItem itID itStatus now)
         (cs\<lparr>updates := keepRecent (Add now (- 24 * Hour)) (updates cs)\<rparr>) citems"
    by (simp_all add: recordChanges_def recordStatusChanges_def trackerRecord_def)
  have c1: "distinct (map ID items) \<longrightarrow>
      recordChanges now items s =
        \<lparr>prevStatus = indexAfter ID Status (prevStatus s) items,
         updates = keepRecent (Add now (- 24 * Hour)) (updates s)
                   @ concat (map (changeFor ID Status now (prevStatus s)) items)\<rparr>
      \<and> recordChanges now' items (recordChanges now items s) =
          (recordChanges now items s)
            \<lparr>updates := keepRecent (Add now' (- 24 * Hour))
                          (updates (recordChanges now items s))\<rparr>"
    and c2: "distinct (map itID citems) \<longrightarrow>
      recordStatusChanges now citems cs =
        \<lparr>prevStatus = indexAfter itID itStatus (prevStatus cs) citems,
         updates = keepRecent (Add now (- 24 * Hour)) (updates cs)
                   @ concat (map (changeFor itID itStatus now (prevStatus cs)) citems)\<rparr>
      \<and> recordStatusChanges now' citems (recordStatusChanges now citems cs) =
          (recordStatusChanges now citems cs)
            \<lparr>updates := keepRecent (Add now' (- 24 * Hour))
                          (updates (recordStatusChanges now citems cs))\<rparr>"
    unfolding recordChanges_def recordStatusChanges_def
    by (intro conjI impI; (rule trackerRecord_distinct trackerRecord_again; assumption))+
  have e1: "sameStatus ID Status items \<longrightarrow>
      recordChanges now' items (recordChanges now items s) =
        (recordChanges now items s)
          \<lparr>updates := keepRecent (Add now' (- 24 * Hour))
                        (updates (recordChanges now items s))\<rparr>"
    and f1: "sameStatus itID itStatus citems \<longrightarrow>
      recordStatusChanges now' citems (recordStatusChanges now citems cs) =
        (recordStatusChanges now citems cs)
          \<lparr>updates := keepRecent (Add now' (- 24 * Hour))
                        (updates (recordStatusChanges now citems cs))\<rparr>"
    unfolding recordChanges_def recordStatusChanges_def
    by (intro impI; (rule trackerRecord_sameStatus; assumption))+
  have e2: "(updates (recordChanges now' items (recordChanges now items s))
         = keepRecent (Add now' (- 24 * Hour)) (updates (recordChanges now items s)))
       = sameStatus ID Status items"
    and f2: "(updates (recordStatusChanges now' citems (recordStatusChanges now citems cs))
         = keepRecent (Add now' (- 24 * Hour)) (updates (recordStatusChanges now citems cs)))
       = sameStatus itID itStatus citems"
    unfolding recordChanges_def recordStatusChanges_def
    by (rule trackerRecord_twice_iff)+
  have e3: "distinct (map ID items) \<longrightarrow> sameStatus ID Status items"
    and f3: "distinct (map itID citems) \<longrightarrow> sameStatus itID itStatus citems"
    by (intro impI; (rule distinct_sameStatus; assumption))+
  show ?thesis by (intro conjI b1 b2 b3 loop c1 c2 e1 e2 e3 f1 f2 f3)
qed

text \<open>
  The scenario of the specification: the item \<open>x\<close>, indexed as in progress, is fetched
  as released, next to a new item \<open>y\<close>; the call appends the one entry for \<open>x\<close>, and
  a second call with the same items appends nothing. The same for a set that holds the
  released \<open>x\<close> twice, as the concatenated pages of \<open>GetAll\<close> can, and for the
  cubecraft service. For the set that holds \<open>x\<close> with two statuses the second call does
  append.
\<close>

theorem record_compares_with_index_witness:
  "distinct (map ID [sampleItem ''x'' ''Released'', sampleItem ''y'' ''Testing''])
   \<and> updates (recordChanges 100 [sampleItem ''x'' ''Released'', sampleItem ''y'' ''Testing'']
        \<lparr>prevStatus = [''x'' \<mapsto> ''In Progress''], updates = []\<rparr>)
     = [\<lparr>At = 100, From = ''In Progress'', To = ''Released'', Item = sampleItem ''x'' ''Released''\<rparr>]
   \<and> updates (recordChanges 200 [sampleItem ''x'' ''Released'', sampleItem ''y'' ''Testing'']
        (recordChanges 100 [sampleItem ''x'' ''Released'', sampleItem ''y'' ''Testing'']
           \<lparr>prevStatus = [''x'' \<mapsto> ''In Progress''], updates = []\<rparr>))
     = [\<lparr>At = 100, From = ''In Progress'', To = ''Released'', Item = sampleItem ''x'' ''Released''\<rparr>]
   \<and> sameStatus ID Status [sampleItem ''x'' ''Released'', sampleItem ''x'' ''Released'']
   \<and> \<not> distinct (map ID [sampleItem ''x'' ''Released'', sampleItem ''x'' ''Released''])
   \<and> updates (recordChanges 200 [sampleItem ''x'' ''Released'', sampleItem ''x'' ''Released'']
        (recordChanges 100 [sampleItem ''x'' ''Released'', sampleItem ''x'' ''Released'']
           \<lparr>prevStatus = [''x'' \<mapsto> ''In Progress''], updates = []\<rparr>))
     = [\<lparr>At = 100, From = ''In Progress'', To = ''Released'', Item = sampleItem ''x'' ''Released''\<rparr>]
   \<and> \<not> sameStatus ID Status [sampleItem ''x'' ''In Progress'', sampleItem ''x'' ''Released'']
   \<and> updates (recordChanges 200 [sampleItem ''x'' ''In Progress'', sampleItem ''x'' ''Released'']
        (recordChanges 100 [sampleItem ''x'' ''In Progress'', sampleItem ''x'' ''Released'']
           newTracker))
     \<noteq> keepRecent (Add 200 (- 24 * Hour))
          (updates (recordChanges 100
             [sampleItem ''x'' ''In Progress'', sampleItem ''x'' ''Released''] newTracker))
   \<and> distinct (map itID [sampleCardItem ''a'' ''Released'', sampleCardItem ''b'' ''In Progress''])
   \<and> updates (recordStatusChanges 100
        [sampleCardItem ''a'' ''Released'', sampleCardItem ''b'' ''In Progress'']
        \<lparr>prevStatus = [''a'' \<mapsto> ''Coming Next...''], updates = []\<rparr>)
     = [\<lparr>At = 100, From = ''Coming Next...'', To = ''Released'',
         Item = sampleCardItem ''a'' ''Released''\<rparr>]
   \<and> updates (recordStatusChanges 200
        [sampleCardItem ''a'' ''Released'', sampleCardItem ''b'' ''In Progress'']
        (recordStatusChanges 100
           [sampleCardItem ''a'' ''Released'', sampleCardItem ''b'' ''In Progress'']
           \<lparr>prevStatus = [''a'' \<mapsto> ''Coming Next...''], updates = []\<rparr>))
     = [\<lparr>At = 100, From = ''Coming Next...'', To = ''Released'',
         Item = sampleCardItem ''a'' ''Released''\<rparr>]"
proof -
  let ?items = "[sampleItem ''x'' ''Released'', sampleItem ''y'' ''Testing'']"
  let ?dup = "[sampleItem ''x'' ''Released'', sampleItem ''x'' ''Released'']"
  let ?two = "[sampleItem ''x'' ''In Progress'', sampleItem ''x'' ''Released'']"
  let ?citems = "[sampleCardItem ''a'' ''Released'', sampleCardItem ''b'' ''In Progress'']"
  let ?s = "\<lparr>prevStatus = [''x'' \<mapsto> ''In Progress''], updates = []\<rparr> :: RoadmapItem tracker"
  let ?cs = "\<lparr>prevStatus = [''a'' \<mapsto> ''Coming Next...''], updates = []\<rparr> :: item tracker"
  let ?e = "\<lparr>At = 100, From = ''In Progress'', To = ''Released'',
             Item = sampleItem ''x'' ''Released''\<rparr>"
  let ?ce = "\<lparr>At = 100, From = ''Coming Next...'', To = ''Released'',
              Item = sampleCardItem ''a'' ''Released''\<rparr>"
  have d: "distinct (map ID ?items)" by (simp add: sampleItem_def)
  have k: "keepRecent (Add 200 (- 24 * Hour)) [?e] = [?e]"
    by (simp add: keepRecent_def After_def Add_def Hour_def)
  note t = record_compares_with_index [where items = ?items and now = 100 and s = ?s
      and now' = 200, THEN conjunct2, THEN conjunct2, THEN conjunct2, THEN conjunct2,
      THEN conjunct2, THEN conjunct1]
  from t d
  have 1: "recordChanges 100 ?items ?s =
        \<lparr>prevStatus = indexAfter ID Status (prevStatus ?s) ?items,
         updates = keepRecent (Add 100 (- 24 * Hour)) (updates ?s)
                   @ concat (map (changeFor ID Status 100 (prevStatus ?s)) ?items)\<rparr>"
    and 2: "recordChanges 200 ?items (recordChanges 100 ?items ?s) =
          (recordChanges 100 ?items ?s)
            \<lparr>updates := keepRecent (Add 200 (- 24 * Hour)) (updates (recordChanges 100 ?items ?s))\<rparr>"
    by blast+
  have u: "updates (recordChanges 100 ?items ?s) = [?e]"
    unfolding 1 by (simp add: keepRecent_def changeFor_def sampleItem_def)
  have p1: "updates (recordChanges 200 ?items (recordChanges 100 ?items ?s)) = [?e]"
    unfolding 2 using u k by simp
  have ss: "sameStatus ID Status ?dup" by (simp add: sameStatus_def)
  have nd: "\<not> distinct (map ID ?dup)" by simp
  note t2 = record_compares_with_index [where items = ?dup and now = 100 and s = ?s
      and now' = 200, THEN conjunct2, THEN conjunct2, THEN conjunct2, THEN conjunct2,
      THEN conjunct2, THEN conjunct2, THEN conjunct2, THEN conjunct1]
  from t2 ss
  have 3: "recordChanges 200 ?dup (recordChanges 100 ?dup ?s) =
          (recordChanges 100 ?dup ?s)
            \<lparr>updates := keepRecent (Add 200 (- 24 * Hour)) (updates (recordChanges 100 ?dup ?s))\<rparr>"
    by blast
  have u2: "updates (recordChanges 100 ?dup ?s) = [?e]"
    by (simp add: recordChanges_def trackerRecord_def recordItem_def keepRecent_def sampleItem_def)
  have p2: "updates (recordChanges 200 ?dup (recordChanges 100 ?dup ?s)) = [?e]"
    unfolding 3 using u2 k by simp
  have ns: "\<not> sameStatus ID Status ?two" by (simp add: sameStatus_def sampleItem_def)
  note t3 = record_compares_with_index [where items = ?two and now = 100
      and s = "newTracker :: RoadmapItem tracker"
      and now' = 200, THEN conjunct2, THEN conjunct2, THEN conjunct2, THEN conjunct2,
      THEN conjunct2, THEN conjunct2, THEN conjunct2, THEN conjunct2, THEN conjunct1]
  from t3 ns
  have p3: "updates (recordChanges 200 ?two (recordChanges 100 ?two newTracker))
     \<noteq> keepRecent (Add 200 (- 24 * Hour)) (updates (recordChanges 100 ?two newTracker))"
    by blast
  have cd: "distinct (map itID ?citems)" by (simp add: sampleCardItem_def)
  note t4 = record_compares_with_index [where citems = ?citems and now = 100 and cs = ?cs
      and now' = 200, THEN conjunct2, THEN conjunct2, THEN conjunct2, THEN conjunct2,
      THEN conjunct2, THEN conjunct2, THEN conjunct1]
  from t4 cd
  have 4: "recordStatusChanges 100 ?citems ?cs =
        \<lparr>prevStatus = indexAfter itID itStatus (prevStatus ?cs) ?citems,
         updates = keepRecent (Add 100 (- 24 * Hour)) (updates ?cs)
                   @ concat (map (changeFor itID itStatus 100 (prevStatus ?cs)) ?citems)\<rparr>"
    and 5: "recordStatusChanges 200 ?citems (recordStatusChanges 100 ?citems ?cs) =
          (recordStatusChanges 100 ?citems ?cs)
            \<lparr>updates := keepRecent (Add 200 (- 24 * Hour))
                          (updates (recordStatusChanges 100 ?citems ?cs))\<rparr>"
    by blast+
  have kc: "keepRecent (Add 200 (- 24 * Hour)) [?ce] = [?ce]"
    by (simp add: keepRecent_def After_def Add_def Hour_def)
  have u4: "updates (recordStatusChanges 100 ?citems ?cs) = [?ce]"
    unfolding 4 by (simp add: keepRecent_def changeFor_def sampleCardItem_def)
  have p4: "updates (recordStatusChanges 200 ?citems (recordStatusChanges 100 ?citems ?cs)) = [?ce]"
    unfolding 5 using u4 kc by simp
  show ?thesis by (intro conjI d u p1 ss nd p2 ns p3 cd u4 p4)
qed

text \<open>
  Claim C5. The retention window is 24 hours behind the clock reading \<open>now\<close> of the call.
  A record call first prunes and then appends: its log is the kept part of the old log
  followed by entries detected at \<open>now\<close>, and every entry of it was detected less than
  24 hours before \<open>now\<close>. \<open>Updates\<close> returns exactly the stored entries detected less
  than 24 hours before its clock reading. An entry one nanosecond younger than 24 hours
  is retained by both; an entry one nanosecond older, and one of exactly 24 hours, is
  returned by no read and kept by no record call. So no reader sees an entry detected
  more than 24 hours before its clock reading. Stated for the hive service and for the
  cubecraft service.
\<close>

theorem retention_window:
  "((\<exists>new. updates (recordChanges now items s)
             = keepRecent (Add now (- 24 * Hour)) (updates s) @ new
         \<and> (\<forall>e\<in>set new. At e = now))
    \<and> (\<forall>e\<in>set (updates (recordChanges now items s)). now - 24 * Hour < At e)
    \<and> set (hive_Updates now s) = {e \<in> set (updates s). now - 24 * Hour < At e}
    \<and> (\<forall>e\<in>set (updates s). At e = now - (24 * Hour - 1) \<longrightarrow>
         e \<in> set (hive_Updates now s) \<and> e \<in> set (updates (recordChanges now items s)))
    \<and> (\<forall>e. At e = now - (24 * Hour + 1) \<or> At e = now - 24 * Hour \<longrightarrow>
         e \<notin> set (hive_Updates now s) \<and> e \<notin> set (updates (recordChanges now items s))))
   \<and>
   ((\<exists>new. updates (recordStatusChanges now citems cs)
             = keepRecent (Add now (- 24 * Hour)) (updates cs) @ new
         \<and> (\<forall>e\<in>set new. At e = now))
    \<and> (\<forall>e\<in>set (updates (recordStatusChanges now citems cs)). now - 24 * Hour < At e)
    \<and> set (cubecraft_Updates now cs) = {e \<in> set (updates cs). now - 24 * Hour < At e}
    \<and> (\<forall>e\<in>set (updates cs). At e = now - (24 * Hour - 1) \<longrightarrow>
         e \<in> set (cubecraft_Updates now cs)
         \<and> e \<in> set (updates (recordStatusChanges now citems cs)))
    \<and> (\<forall>e. At e = now - (24 * Hour + 1) \<or> At e = now - 24 * Hour \<longrightarrow>
         e \<notin> set (cubecraft_Updates now cs)
         \<and> e \<notin> set (updates (recordStatusChanges now citems cs))))"
  unfolding recordChanges_def recordStatusChanges_def hive_Updates_def cubecraft_Updates_def
  using tracker_window [of ID Status now items s]
        tracker_window [of itID itStatus now citems cs]
  by blast

text \<open>
  At the clock reading of 100 hours, an entry detected at 76 hours plus one nanosecond
  is returned and kept; an entry detected at 76 hours minus one nanosecond is not.
\<close>

theorem retention_window_witness:
  "sampleEntry (100 * Hour - (24 * Hour - 1))
     \<in> set (updates \<lparr>prevStatus = Map.empty,
                      updates = [sampleEntry (100 * Hour - (24 * Hour + 1)),
                                 sampleEntry (100 * Hour - (24 * Hour - 1))]\<rparr>)
   \<and> At (sampleEntry (100 * Hour - (24 * Hour - 1))) = 100 * Hour - (24 * Hour - 1)
   \<and> At (sampleEntry (100 * Hour - (24 * Hour + 1))) = 100 * Hour - (24 * Hour + 1)
   \<and> hive_Updates (100 * Hour)
        \<lparr>prevStatus = Map.empty,
         updates = [sampleEntry (100 * Hour - (24 * Hour + 1)),
                    sampleEntry (100 * Hour - (24 * Hour - 1))]\<rparr>
     = [sampleEntry (100 * Hour - (24 * Hour - 1))]
   \<and> sampleEntry (100 * Hour - (24 * Hour - 1))
       \<in> set (updates (recordChanges (100 * Hour) []
                \<lparr>prevStatus = Map.empty,
                 updates = [sampleEntry (100 * Hour - (24 * Hour + 1)),
                            sampleEntry (100 * Hour - (24 * Hour - 1))]\<rparr>))
   \<and> sampleEntry (100 * Hour - (24 * Hour + 1))
       \<notin> set (updates (recordChanges (100 * Hour) []
                \<lparr>prevStatus = Map.empty,
                 updates = [sampleEntry (100 * Hour - (24 * Hour + 1)),
                            sampleEntry (100 * Hour - (24 * Hour - 1))]\<rparr>))"
proof -
  let ?old = "sampleEntry (100 * Hour - (24 * Hour + 1))"
  let ?young = "sampleEntry (100 * Hour - (24 * Hour - 1))"
  let ?s = "\<lparr>prevStatus = Map.empty, updates = [?old, ?young]\<rparr> :: RoadmapItem tracker"
  have m: "?young \<in> set (updates ?s)" by simp
  have a: "At ?young = 100 * Hour - (24 * Hour - 1)" "At ?old = 100 * Hour - (24 * Hour + 1)"
    by (simp_all add: sampleEntry_def)
  have r: "hive_Updates (100 * Hour) ?s = [?young]"
    by (simp add: hive_Updates_def trackerUpdates_def keepRecent_def After_def Add_def
          sampleEntry_def Hour_def)
  from retention_window [of "100 * Hour" "[]" ?s]
  have "(\<forall>e\<in>set (updates ?s). At e = 100 * Hour - (24 * Hour - 1) \<longrightarrow>
           e \<in> set (hive_Updates (100 * Hour) ?s)
           \<and> e \<in> set (updates (recordChanges (100 * Hour) [] ?s)))"
    and "(\<forall>e. At e = 100 * Hour - (24 * Hour + 1) \<or> At e = 100 * Hour - 24 * Hour \<longrightarrow>
           e \<notin> set (hive_Updates (100 * Hour) ?s)
           \<and> e \<notin> set (updates (recordChanges (100 * Hour) [] ?s)))"
    by blast+
  then have "?young \<in> set (updates (recordChanges (100 * Hour) [] ?s))"
    and "?old \<notin> set (updates (recordChanges (100 * Hour) [] ?s))"
    using m a by blast+
  then show ?thesis using m a r by blast
qed

text \<open>
  Claim C10, as stated, fails. The clock reading of a record call is taken before the
  call takes the mutex, so a call that read its clock earlier can append later. Here a
  call with the reading 5 runs after a call with the reading 10, and the log holds an
  entry detected at 10 before an entry detected at 5.
\<close>

theorem log_order_counterexample:
  "\<not> logInvariant (updates (trackerRun ID Status
        [CallRecord 10 [sampleItem ''x'' ''In Progress''],
         CallRecord 10 [sampleItem ''x'' ''Released''],
         CallRecord 5 [sampleItem ''x'' ''In Progress'']]))"
  by (simp add: trackerRun_def newTracker_def trackerRecord_def recordItem_def keepRecent_def
        After_def Add_def Hour_def logInvariant_def sampleItem_def)

text \<open>
  Claim C10, amended. From the state of \<open>NewService\<close>, after any history of record and
  read calls, whatever the clock readings are, every entry of the log has a previous
  status different from its new status, and so has every entry that \<open>Updates\<close> returns.
  When the clock readings of the record calls do not decrease in the order in which the
  calls take the mutex, the entries of the log are moreover in non-decreasing order of
  detection time, and so are the entries of every list that \<open>Updates\<close> returns. Stated
  for the hive service and for the cubecraft service.
\<close>

theorem log_invariant:
  "(\<forall>e\<in>set (updates (trackerRun ID Status calls)). From e \<noteq> To e)
   \<and> (\<forall>now. \<forall>e\<in>set (hive_Updates now (trackerRun ID Status calls)). From e \<noteq> To e)
   \<and> (sorted (recordTimes calls) \<longrightarrow>
      logInvariant (updates (trackerRun ID Status calls))
      \<and> sorted (map At (updates (trackerRun ID Status calls)))
      \<and> (\<forall>now. logInvariant (hive_Updates now (trackerRun ID Status calls))
               \<and> sorted (map At (hive_Updates now (trackerRun ID Status calls)))))
   \<and> (\<forall>e\<in>set (updates (trackerRun itID itStatus ccalls)). From e \<noteq> To e)
   \<and> (\<forall>now. \<forall>e\<in>set (cubecraft_Updates now (trackerRun itID itStatus ccalls)). From e \<noteq> To e)
   \<and> (sorted (recordTimes ccalls) \<longrightarrow>
      logInvariant (updates (trackerRun itID itStatus ccalls))
      \<and> sorted (map At (updates (trackerRun itID itStatus ccalls)))
      \<and> (\<forall>now. logInvariant (cubecraft_Updates now (trackerRun itID itStatus ccalls))
               \<and> sorted (map At (cubecraft_Updates now (trackerRun itID itStatus ccalls)))))"
proof -
  have h1: "\<forall>e\<in>set (updates (trackerRun ID Status calls)). From e \<noteq> To e"
    and h2: "\<forall>now. \<forall>e\<in>set (hive_Updates now (trackerRun ID Status calls)). From e \<noteq> To e"
    unfolding hive_Updates_def using trackerRun_changes [of ID Status calls] by blast+
  have c1: "\<forall>e\<in>set (updates (trackerRun itID itStatus ccalls)). From e \<noteq> To e"
    and c2: "\<forall>now. \<forall>e\<in>set (cubecraft_Updates now (trackerRun itID itStatus ccalls)).
               From e \<noteq> To e"
    unfolding cubecraft_Updates_def using trackerRun_changes [of itID itStatus ccalls] by blast+
  have h3: "sorted (recordTimes calls) \<longrightarrow>
      logInvariant (updates (trackerRun ID Status calls))
      \<and> sorted (map At (updates (trackerRun ID Status calls)))
      \<and> (\<forall>now. logInvariant (hive_Updates now (trackerRun ID Status calls))
               \<and> sorted (map At (hive_Updates now (trackerRun ID Status calls))))"
    unfolding hive_Updates_def
    using trackerRun_invariant [of calls ID Status] by (simp add: logInvariant_def)
  have c3: "sorted (recordTimes ccalls) \<longrightarrow>
      logInvariant (updates (trackerRun itID itStatus ccalls))
      \<and> sorted (map At (updates (trackerRun itID itStatus ccalls)))
      \<and> (\<forall>now. logInvariant (cubecraft_Updates now (trackerRun itID itStatus ccalls))
               \<and> sorted (map At (cubecraft_Updates now (trackerRun itID itStatus ccalls))))"
    unfolding cubecraft_Updates_def
    using trackerRun_invariant [of ccalls itID itStatus] by (simp add: logInvariant_def)
  show ?thesis by (intro conjI h1 h2 h3 c1 c2 c3)
qed

text \<open>
  A history with clock readings in order: \<open>x\<close> and \<open>y\<close> are first seen at 5, both are
  released at 7, \<open>Updates\<close> is read at 8, and \<open>x\<close> is back in progress at 10. The log
  holds three entries, two of them detected at 7, in the order of their detection times,
  and a read at 20 returns the three. The same history on the cubecraft service. For
  the history of the counterexample, whose clock readings are out of order, every entry
  still has a previous status different from its new status.
\<close>

theorem log_invariant_witness:
  "sorted (recordTimes
      [CallRecord 5 [sampleItem ''x'' ''In Progress'', sampleItem ''y'' ''Testing''],
       CallRecord 7 [sampleItem ''x'' ''Released'', sampleItem ''y'' ''Released''],
       CallUpdates 8,
       CallRecord 10 [sampleItem ''x'' ''In Progress'', sampleItem ''y'' ''Released'']])
   \<and> updates (trackerRun ID Status
        [CallRecord 5 [sampleItem ''x'' ''In Progress'', sampleItem ''y'' ''Testing''],
         CallRecord 7 [sampleItem ''x'' ''Released'', sampleItem ''y'' ''Released''],
         CallUpdates 8,
         CallRecord 10 [sampleItem ''x'' ''In Progress'', sampleItem ''y'' ''Released'']])
     = [\<lparr>At = 7, From = ''In Progress'', To = ''Released'', Item = sampleItem ''x'' ''Released''\<rparr>,
        \<lparr>At = 7, From = ''Testing'', To = ''Released'', Item = sampleItem ''y'' ''Released''\<rparr>,
        \<lparr>At = 10, From = ''Released'', To = ''In Progress'',
         Item = sampleItem ''x'' ''In Progress''\<rparr>]
   \<and> logInvariant (updates (trackerRun ID Status
        [CallRecord 5 [sampleItem ''x'' ''In Progress'', sampleItem ''y'' ''Testing''],
         CallRecord 7 [sampleItem ''x'' ''Released'', sampleItem ''y'' ''Released''],
         CallUpdates 8,
         CallRecord 10 [sampleItem ''x'' ''In Progress'', sampleItem ''y'' ''Released'']]))
   \<and> length (hive_Updates 20 (trackerRun ID Status
        [CallRecord 5 [sampleItem ''x'' ''In Progress'', sampleItem ''y'' ''Testing''],
         CallRecord 7 [sampleItem ''x'' ''Released'', sampleItem ''y'' ''Released''],
         CallUpdates 8,
         CallRecord 10 [sampleItem ''x'' ''In Progress'', sampleItem ''y'' ''Released'']])) = 3
   \<and> sorted (map At (hive_Updates 20 (trackerRun ID Status
        [CallRecord 5 [sampleItem ''x'' ''In Progress'', sampleItem ''y'' ''Testing''],
         CallRecord 7 [sampleItem ''x'' ''Released'', sampleItem ''y'' ''Released''],
         CallUpdates 8,
         CallRecord 10 [sampleItem ''x'' ''In Progress'', sampleItem ''y'' ''Released'']])))
   \<and> sorted (recordTimes
        [CallRecord 5 [sampleCardItem ''a'' ''In Progress''],
         CallRecord 7 [sampleCardItem ''a'' ''Coming Next...''],
         CallRecord 7 [sampleCardItem ''a'' ''Released'']])
   \<and> updates (trackerRun itID itStatus
        [CallRecord 5 [sampleCardItem ''a'' ''In Progress''],
         CallRecord 7 [sampleCardItem ''a'' ''Coming Next...''],
         CallRecord 7 [sampleCardItem ''a'' ''Released'']])
     = [\<lparr>At = 7, From = ''In Progress'', To = ''Coming Next...'',
         Item = sampleCardItem ''a'' ''Coming Next...''\<rparr>,
        \<lparr>At = 7, From = ''Coming Next...'', To = ''Released'',
         Item = sampleCardItem ''a'' ''Released''\<rparr>]
   \<and> logInvariant (updates (trackerRun itID itStatus
        [CallRecord 5 [sampleCardItem ''a'' ''In Progress''],
         CallRecord 7 [sampleCardItem ''a'' ''Coming Next...''],
         CallRecord 7 [sampleCardItem ''a'' ''Released'']]))
   \<and> \<not> sorted (recordTimes
        [CallRecord 10 [sampleItem ''x'' ''In Progress''],
         CallRecord 10 [sampleItem ''x'' ''Released''],
         CallRecord 5 [sampleItem ''x'' ''In Progress'']])
   \<and> length (updates (trackerRun ID Status
        [CallRecord 10 [sampleItem ''x'' ''In Progress''],
         CallRecord 10 [sampleItem ''x'' ''Released''],
         CallRecord 5 [sampleItem ''x'' ''In Progress'']])) = 2
   \<and> list_all (\<lambda>e. From e \<noteq> To e) (updates (trackerRun ID Status
        [CallRecord 10 [sampleItem ''x'' ''In Progress''],
         CallRecord 10 [sampleItem ''x'' ''Released''],
         CallRecord 5 [sampleItem ''x'' ''In Progress'']]))"
proof -
  let ?calls = "[CallRecord 5 [sampleItem ''x'' ''In Progress'', sampleItem ''y'' ''Testing''],
                 CallRecord 7 [sampleItem ''x'' ''Released'', sampleItem ''y'' ''Released''],
                 CallUpdates 8,
                 CallRecord 10 [sampleItem ''x'' ''In Progress'', sampleItem ''y'' ''Released'']]"
  let ?ccalls = "[CallRecord 5 [sampleCardItem ''a'' ''In Progress''],
                  CallRecord 7 [sampleCardItem ''a'' ''Coming Next...''],
                  CallRecord 7 [sampleCardItem ''a'' ''Released'']]"
  let ?bad = "[CallRecord 10 [sampleItem ''x'' ''In Progress''],
               CallRecord 10 [sampleItem ''x'' ''Released''],
               CallRecord 5 [sampleItem ''x'' ''In Progress'']]"
  have s: "sorted (recordTimes ?calls)" by simp
  have cs: "sorted (recordTimes ?ccalls)" by simp
  have nb: "\<not> sorted (recordTimes ?bad)" by simp
  have u: "updates (trackerRun ID Status ?calls)
      = [\<lparr>At = 7, From = ''In Progress'', To = ''Released'', Item = sampleItem ''x'' ''Released''\<rparr>,
         \<lparr>At = 7, From = ''Testing'', To = ''Released'', Item = sampleItem ''y'' ''Released''\<rparr>,
         \<lparr>At = 10, From = ''Released'', To = ''In Progress'',
          Item = sampleItem ''x'' ''In Progress''\<rparr>]"
    by (simp add: trackerRun_def newTracker_def trackerRecord_def recordItem_def keepRecent_def
          After_def Add_def Hour_def sampleItem_def)
  have r: "length (hive_Updates 20 (trackerRun ID Status ?calls)) = 3"
    unfolding hive_Updates_def trackerUpdates_def Let_def u
    by (simp add: keepRecent_def After_def Add_def Hour_def)
  have cu: "updates (trackerRun itID itStatus ?ccalls)
      = [\<lparr>At = 7, From = ''In Progress'', To = ''Coming Next...'',
          Item = sampleCardItem ''a'' ''Coming Next...''\<rparr>,
         \<lparr>At = 7, From = ''Coming Next...'', To = ''Released'',
          Item = sampleCardItem ''a'' ''Released''\<rparr>]"
    by (simp add: trackerRun_def newTracker_def trackerRecord_def recordItem_def keepRecent_def
          After_def Add_def Hour_def sampleCardItem_def)
  have bu: "length (updates (trackerRun ID Status ?bad)) = 2"
    by (simp add: trackerRun_def newTracker_def trackerRecord_def recordItem_def keepRecent_def
          After_def Add_def Hour_def sampleItem_def)
  note t = log_invariant [of ?calls ?ccalls]
  from t s have i1: "logInvariant (updates (trackerRun ID Status ?calls))"
    and i2: "sorted (map At (hive_Updates 20 (trackerRun ID Status ?calls)))"
    by blast+
  from t cs have i3: "logInvariant (updates (trackerRun itID itStatus ?ccalls))"
    by blast
  from log_invariant [of ?bad "[]"]
  have "\<forall>e\<in>set (updates (trackerRun ID Status ?bad)). From e \<noteq> To e" by blast
  then have i4: "list_all (\<lambda>e. From e \<noteq> To e) (updates (trackerRun ID Status ?bad))"
    by (simp only: list_all_iff)
  show ?thesis by (intro conjI s u i1 r i2 cs cu i3 nb bu i4)
qed

section \<open>Properties of stripHTML\<close>

lemma rune_codes:
  "of_char CHR ''<'' = (60::nat)" "of_char CHR ''>'' = (62::nat)" "of_char CHR ''&'' = (38::nat)"
  by simp_all




lemma stripTags_unclosed:
  "(62::nat) \<notin> set tag \<Longrightarrow> stripTags True tag = []"
  by (induction tag) auto










section \<open>Properties of the response caches\<close>

lemma roundTrip_sent:
  "roundTrip e now' u bypass c = (Inr b, c') \<Longrightarrow> sent c' = sent c @ [u]"
  by (auto simp: roundTrip_def Let_def split: httpOutcome.splits if_splits)

lemma roundTrip_cache_off:
  "cacheTTL c \<le> 0 \<or> bypass \<Longrightarrow> cache (snd (roundTrip e now' u bypass c)) = cache c"
  by (auto simp: roundTrip_def Let_def split: httpOutcome.splits)

lemma roundTrip_cache_on:
  assumes "0 < cacheTTL c" and "\<not> bypass"
  shows "case fst (roundTrip e now' u bypass c) of
           Inl err \<Rightarrow> cache (snd (roundTrip e now' u bypass c)) = cache c
         | Inr b \<Rightarrow> cache (snd (roundTrip e now' u bypass c))
                     = (cache c)(u \<mapsto> \<lparr>body = b, expiresAt = Add now' (cacheTTL c)\<rparr>)"
  using assms by (auto simp: roundTrip_def Let_def split: httpOutcome.splits)

lemma hive_get_hit_iff:
  "(\<exists>entry. cache c u = Some entry
           \<and> fst (hive_get e now now' u bypass c) = Inr (body entry)
           \<and> sent (snd (hive_get e now now' u bypass c)) = sent c)
   \<longleftrightarrow> (\<not> bypass \<and> 0 < cacheTTL c \<and> (\<exists>entry. cache c u = Some entry \<and> now < expiresAt entry))"
proof
  assume "\<exists>entry. cache c u = Some entry
           \<and> fst (hive_get e now now' u bypass c) = Inr (body entry)
           \<and> sent (snd (hive_get e now now' u bypass c)) = sent c"
  then obtain entry where en: "cache c u = Some entry"
    and r: "fst (hive_get e now now' u bypass c) = Inr (body entry)"
    and s: "sent (snd (hive_get e now now' u bypass c)) = sent c" by blast
  show "\<not> bypass \<and> 0 < cacheTTL c \<and> (\<exists>entry. cache c u = Some entry \<and> now < expiresAt entry)"
  proof (rule ccontr)
    assume n: "\<not> (\<not> bypass \<and> 0 < cacheTTL c \<and> (\<exists>entry. cache c u = Some entry \<and> now < expiresAt entry))"
    have "\<exists>c0. hive_get e now now' u bypass c = roundTrip e now' u bypass c0 \<and> sent c0 = sent c"
    proof (cases "\<not> bypass \<and> 0 < cacheTTL c")
      case True
      then have "hive_get e now now' u bypass c
          = roundTrip e now' u bypass (c\<lparr>cache := (cache c)(u := None)\<rparr>)"
        using n en by (simp add: hive_get_def Before_def)
      then show ?thesis by (intro exI [of _ "c\<lparr>cache := (cache c)(u := None)\<rparr>"]) simp
    next
      case False
      then have "hive_get e now now' u bypass c = roundTrip e now' u bypass c"
        by (auto simp: hive_get_def)
      then show ?thesis by (intro exI [of _ c]) simp
    qed
    then obtain c0 where g: "hive_get e now now' u bypass c = roundTrip e now' u bypass c0"
      and s0: "sent c0 = sent c" by blast
    obtain c' where "roundTrip e now' u bypass c0 = (Inr (body entry), c')"
      using r g by (cases "roundTrip e now' u bypass c0") auto
    from roundTrip_sent [OF this] this s g s0 show False by simp
  qed
next
  assume "\<not> bypass \<and> 0 < cacheTTL c \<and> (\<exists>entry. cache c u = Some entry \<and> now < expiresAt entry)"
  then show "\<exists>entry. cache c u = Some entry
           \<and> fst (hive_get e now now' u bypass c) = Inr (body entry)
           \<and> sent (snd (hive_get e now now' u bypass c)) = sent c"
    by (auto simp: hive_get_def Before_def)
qed

lemma hive_get_expired:
  assumes "\<not> bypass" and "0 < cacheTTL c" and "cache c u = Some entry" and "expiresAt entry \<le> now"
  shows "case fst (hive_get e now now' u bypass c) of
           Inl err \<Rightarrow> cache (snd (hive_get e now now' u bypass c)) u = None
         | Inr b \<Rightarrow> cache (snd (hive_get e now now' u bypass c)) u
                     = Some \<lparr>body = b, expiresAt = Add now' (cacheTTL c)\<rparr>"
proof -
  let ?c0 = "c\<lparr>cache := (cache c)(u := None)\<rparr>"
  have g: "hive_get e now now' u bypass c = roundTrip e now' u bypass ?c0"
    using assms by (simp add: hive_get_def Before_def)
  have "0 < cacheTTL ?c0" using assms(2) by simp
  from roundTrip_cache_on [OF this assms(1), of e now' u] show ?thesis
    unfolding g by (auto split: sum.splits)
qed

lemma hive_get_off:
  assumes "cacheTTL c \<le> 0 \<or> bypass"
  shows "hive_get e now now' u bypass c = roundTrip e now' u bypass c
       \<and> cache (snd (hive_get e now now' u bypass c)) = cache c"
proof -
  have "hive_get e now now' u bypass c = roundTrip e now' u bypass c"
    using assms by (auto simp: hive_get_def)
  then show ?thesis using roundTrip_cache_off [OF assms] by simp
qed

lemma notionRoundTrip_sent:
  "notionRoundTrip e now' c = (Inr cards, c') \<Longrightarrow> ccSent c' = ccSent c + 1"
  by (auto simp: notionRoundTrip_def Let_def split: httpOutcome.splits if_splits option.splits)

lemma notionRoundTrip_cache:
  "case fst (notionRoundTrip e now' c) of
     Inl err \<Rightarrow> ccCache (snd (notionRoundTrip e now' c)) = ccCache c
   | Inr cards \<Rightarrow> ccCache (snd (notionRoundTrip e now' c))
        = (if 0 < ccCacheTTL c
           then Some \<lparr>data = cards, ccExpiresAt = Add now' (ccCacheTTL c)\<rparr>
           else ccCache c)"
  by (auto simp: notionRoundTrip_def Let_def split: httpOutcome.splits option.splits)

lemma Fetch_hit_iff:
  "(\<exists>entry. ccCache c = Some entry
           \<and> fst (Fetch e now now' c) = Inr (data entry)
           \<and> ccSent (snd (Fetch e now now' c)) = ccSent c)
   \<longleftrightarrow> (0 < ccCacheTTL c \<and> (\<exists>entry. ccCache c = Some entry \<and> now < ccExpiresAt entry))"
proof
  assume "\<exists>entry. ccCache c = Some entry
           \<and> fst (Fetch e now now' c) = Inr (data entry)
           \<and> ccSent (snd (Fetch e now now' c)) = ccSent c"
  then obtain entry where en: "ccCache c = Some entry"
    and r: "fst (Fetch e now now' c) = Inr (data entry)"
    and s: "ccSent (snd (Fetch e now now' c)) = ccSent c" by blast
  show "0 < ccCacheTTL c \<and> (\<exists>entry. ccCache c = Some entry \<and> now < ccExpiresAt entry)"
  proof (rule ccontr)
    assume "\<not> (0 < ccCacheTTL c \<and> (\<exists>entry. ccCache c = Some entry \<and> now < ccExpiresAt entry))"
    then have g: "Fetch e now now' c = notionRoundTrip e now' c"
      using en by (auto simp: Fetch_def Before_def)
    obtain c' where "notionRoundTrip e now' c = (Inr (data entry), c')"
      using r g by (cases "notionRoundTrip e now' c") auto
    from notionRoundTrip_sent [OF this] this s g show False by simp
  qed
next
  assume "0 < ccCacheTTL c \<and> (\<exists>entry. ccCache c = Some entry \<and> now < ccExpiresAt entry)"
  then show "\<exists>entry. ccCache c = Some entry
           \<and> fst (Fetch e now now' c) = Inr (data entry)
           \<and> ccSent (snd (Fetch e now now' c)) = ccSent c"
    by (auto simp: Fetch_def Before_def)
qed

lemma Fetch_miss:
  assumes "ccCacheTTL c \<le> 0 \<or> ccCache c = None \<or> (\<exists>entry. ccCache c = Some entry \<and> ccExpiresAt entry \<le> now)"
  shows "Fetch e now now' c = notionRoundTrip e now' c"
  using assms by (auto simp: Fetch_def Before_def split: option.splits)

text \<open>
  Claim C7, as stated, fails for \<open>Client.get\<close> of the hive client: a call that bypasses
  the cache does not return the stored value although the TTL is positive, the key is
  stored and the entry has not expired. Here the entry holds \<open>old\<close> and expires at 100;
  at time 50 the bypassing call sends a request and returns the \<open>new\<close> body of the
  provider.
\<close>

theorem cache_bypass_counterexample:
  "0 < cacheTTL \<lparr>baseURL = [], cache = [sampleURL 1 \<mapsto> \<lparr>body = ''old'', expiresAt = 100\<rparr>],
                  cacheTTL = 30, maxConcurrency = 2, sent = []\<rparr>
   \<and> (50::int) < expiresAt \<lparr>body = ''old'', expiresAt = 100\<rparr>
   \<and> hive_get (sampleEnv (\<lambda>u. Response 200 ''new'' True) (\<lambda>raw. None) DoFailed (\<lambda>raw. None))
        50 50 (sampleURL 1) True
        \<lparr>baseURL = [], cache = [sampleURL 1 \<mapsto> \<lparr>body = ''old'', expiresAt = 100\<rparr>],
         cacheTTL = 30, maxConcurrency = 2, sent = []\<rparr>
     = (Inr ''new'',
        \<lparr>baseURL = [], cache = [sampleURL 1 \<mapsto> \<lparr>body = ''old'', expiresAt = 100\<rparr>],
         cacheTTL = 30, maxConcurrency = 2, sent = [sampleURL 1]\<rparr>)"
  by (simp add: hive_get_def roundTrip_def sampleEnv_def Let_def)

text \<open>
  Claim C7, amended. \<open>Client.get\<close> of the hive client returns the stored body without a
  request exactly when the call does not bypass the cache, the TTL is positive, the key
  is stored and the clock reading is strictly before the stored expiry; \<open>Client.Fetch\<close>
  of the cubecraft client, which has no bypass, returns the stored cards without a
  request exactly when the TTL is positive, an entry is stored and the clock reading is
  strictly before its expiry. An expired entry is never returned: the hive \<open>get\<close>
  deletes it and stores a fresh entry when the request succeeds, \<open>Fetch\<close> goes to the
  provider and overwrites it when the request succeeds. With a TTL of zero or less, and
  in a bypassing call, nothing is stored and the call goes to the provider.
\<close>

theorem cache_hit_iff:
  "((\<exists>entry. cache c u = Some entry
            \<and> fst (hive_get e now now' u bypass c) = Inr (body entry)
            \<and> sent (snd (hive_get e now now' u bypass c)) = sent c)
     \<longleftrightarrow> (\<not> bypass \<and> 0 < cacheTTL c \<and> (\<exists>entry. cache c u = Some entry \<and> now < expiresAt entry)))
   \<and> (\<not> bypass \<and> 0 < cacheTTL c \<and> (\<exists>entry. cache c u = Some entry \<and> expiresAt entry \<le> now) \<longrightarrow>
        (case fst (hive_get e now now' u bypass c) of
           Inl err \<Rightarrow> cache (snd (hive_get e now now' u bypass c)) u = None
         | Inr b \<Rightarrow> cache (snd (hive_get e now now' u bypass c)) u
                     = Some \<lparr>body = b, expiresAt = Add now' (cacheTTL c)\<rparr>))
   \<and> (cacheTTL c \<le> 0 \<or> bypass \<longrightarrow>
        hive_get e now now' u bypass c = roundTrip e now' u bypass c
        \<and> cache (snd (hive_get e now now' u bypass c)) = cache c)
   \<and> ((\<exists>entry. ccCache cc = Some entry
            \<and> fst (Fetch e now now' cc) = Inr (data entry)
            \<and> ccSent (snd (Fetch e now now' cc)) = ccSent cc)
     \<longleftrightarrow> (0 < ccCacheTTL cc \<and> (\<exists>entry. ccCache cc = Some entry \<and> now < ccExpiresAt entry)))
   \<and> (ccCacheTTL cc \<le> 0 \<or> (\<exists>entry. ccCache cc = Some entry \<and> ccExpiresAt entry \<le> now) \<longrightarrow>
        Fetch e now now' cc = notionRoundTrip e now' cc
        \<and> (case fst (Fetch e now now' cc) of
              Inl err \<Rightarrow> ccCache (snd (Fetch e now now' cc)) = ccCache cc
            | Inr cards \<Rightarrow> ccCache (snd (Fetch e now now' cc))
                 = (if 0 < ccCacheTTL cc
                    then Some \<lparr>data = cards, ccExpiresAt = Add now' (ccCacheTTL cc)\<rparr>
                    else ccCache cc)))"
proof (intro conjI)
  show "(\<exists>entry. cache c u = Some entry
            \<and> fst (hive_get e now now' u bypass c) = Inr (body entry)
            \<and> sent (snd (hive_get e now now' u bypass c)) = sent c)
     \<longleftrightarrow> (\<not> bypass \<and> 0 < cacheTTL c \<and> (\<exists>entry. cache c u = Some entry \<and> now < expiresAt entry))"
    by (rule hive_get_hit_iff)
  show "\<not> bypass \<and> 0 < cacheTTL c \<and> (\<exists>entry. cache c u = Some entry \<and> expiresAt entry \<le> now) \<longrightarrow>
        (case fst (hive_get e now now' u bypass c) of
           Inl err \<Rightarrow> cache (snd (hive_get e now now' u bypass c)) u = None
         | Inr b \<Rightarrow> cache (snd (hive_get e now now' u bypass c)) u
                     = Some \<lparr>body = b, expiresAt = Add now' (cacheTTL c)\<rparr>)"
    using hive_get_expired [of bypass c u _ now e now'] by blast
  show "cacheTTL c \<le> 0 \<or> bypass \<longrightarrow>
        hive_get e now now' u bypass c = roundTrip e now' u bypass c
        \<and> cache (snd (hive_get e now now' u bypass c)) = cache c"
    using hive_get_off [of c bypass e now now' u] by blast
  show "(\<exists>entry. ccCache cc = Some entry
            \<and> fst (Fetch e now now' cc) = Inr (data entry)
            \<and> ccSent (snd (Fetch e now now' cc)) = ccSent cc)
     \<longleftrightarrow> (0 < ccCacheTTL cc \<and> (\<exists>entry. ccCache cc = Some entry \<and> now < ccExpiresAt entry))"
    by (rule Fetch_hit_iff)
  show "ccCacheTTL cc \<le> 0 \<or> (\<exists>entry. ccCache cc = Some entry \<and> ccExpiresAt entry \<le> now) \<longrightarrow>
        Fetch e now now' cc = notionRoundTrip e now' cc
        \<and> (case fst (Fetch e now now' cc) of
              Inl err \<Rightarrow> ccCache (snd (Fetch e now now' cc)) = ccCache cc
            | Inr cards \<Rightarrow> ccCache (snd (Fetch e now now' cc))
                 = (if 0 < ccCacheTTL cc
                    then Some \<lparr>data = cards, ccExpiresAt = Add now' (ccCacheTTL cc)\<rparr>
                    else ccCache cc))"
  proof
    assume a: "ccCacheTTL cc \<le> 0 \<or> (\<exists>entry. ccCache cc = Some entry \<and> ccExpiresAt entry \<le> now)"
    then have g: "Fetch e now now' cc = notionRoundTrip e now' cc"
      by (intro Fetch_miss) blast
    show "Fetch e now now' cc = notionRoundTrip e now' cc
        \<and> (case fst (Fetch e now now' cc) of
              Inl err \<Rightarrow> ccCache (snd (Fetch e now now' cc)) = ccCache cc
            | Inr cards \<Rightarrow> ccCache (snd (Fetch e now now' cc))
                 = (if 0 < ccCacheTTL cc
                    then Some \<lparr>data = cards, ccExpiresAt = Add now' (ccCacheTTL cc)\<rparr>
                    else ccCache cc))"
      unfolding g using notionRoundTrip_cache [of e now' cc] by simp
  qed
qed

text \<open>
  The entry that expires at 100 is returned at 99 and not at 100, where the call fetches
  the \<open>new\<close> body and stores it with the expiry 101 + 30.
\<close>

theorem cache_hit_iff_witness:
  "\<not> False \<and> 0 < cacheTTL \<lparr>baseURL = [], cache = [sampleURL 1 \<mapsto> \<lparr>body = ''old'', expiresAt = 100\<rparr>],
                  cacheTTL = 30, maxConcurrency = 2, sent = []\<rparr>
   \<and> fst (hive_get (sampleEnv (\<lambda>u. Response 200 ''new'' True) (\<lambda>raw. None) DoFailed (\<lambda>raw. None))
        99 101 (sampleURL 1) False
        \<lparr>baseURL = [], cache = [sampleURL 1 \<mapsto> \<lparr>body = ''old'', expiresAt = 100\<rparr>],
         cacheTTL = 30, maxConcurrency = 2, sent = []\<rparr>) = Inr ''old''
   \<and> fst (hive_get (sampleEnv (\<lambda>u. Response 200 ''new'' True) (\<lambda>raw. None) DoFailed (\<lambda>raw. None))
        100 101 (sampleURL 1) False
        \<lparr>baseURL = [], cache = [sampleURL 1 \<mapsto> \<lparr>body = ''old'', expiresAt = 100\<rparr>],
         cacheTTL = 30, maxConcurrency = 2, sent = []\<rparr>) = Inr ''new''
   \<and> cache (snd (hive_get (sampleEnv (\<lambda>u. Response 200 ''new'' True) (\<lambda>raw. None) DoFailed (\<lambda>raw. None))
        100 101 (sampleURL 1) False
        \<lparr>baseURL = [], cache = [sampleURL 1 \<mapsto> \<lparr>body = ''old'', expiresAt = 100\<rparr>],
         cacheTTL = 30, maxConcurrency = 2, sent = []\<rparr>)) (sampleURL 1)
     = Some \<lparr>body = ''new'', expiresAt = 131\<rparr>"
proof -
  let ?e = "sampleEnv (\<lambda>u. Response 200 ''new'' True) (\<lambda>raw. None) DoFailed (\<lambda>raw. None)"
  let ?c = "\<lparr>baseURL = [], cache = [sampleURL 1 \<mapsto> \<lparr>body = ''old'', expiresAt = 100\<rparr>],
             cacheTTL = 30, maxConcurrency = 2, sent = []\<rparr>"
  have t: "0 < cacheTTL ?c" by simp
  have en: "cache ?c (sampleURL 1) = Some \<lparr>body = ''old'', expiresAt = 100\<rparr>" by simp
  have "\<exists>entry. cache ?c (sampleURL 1) = Some entry
            \<and> fst (hive_get ?e 99 101 (sampleURL 1) False ?c) = Inr (body entry)
            \<and> sent (snd (hive_get ?e 99 101 (sampleURL 1) False ?c)) = sent ?c"
    using cache_hit_iff [of ?c "sampleURL 1" ?e 99 101 False] t en by simp
  then have 1: "fst (hive_get ?e 99 101 (sampleURL 1) False ?c) = Inr ''old''"
    by simp
  have n: "fst (hive_get ?e 100 101 (sampleURL 1) False ?c) = Inr ''new''"
    by (simp add: hive_get_def roundTrip_def sampleEnv_def Before_def Let_def)
  have "case fst (hive_get ?e 100 101 (sampleURL 1) False ?c) of
           Inl err \<Rightarrow> cache (snd (hive_get ?e 100 101 (sampleURL 1) False ?c)) (sampleURL 1) = None
         | Inr b \<Rightarrow> cache (snd (hive_get ?e 100 101 (sampleURL 1) False ?c)) (sampleURL 1)
                     = Some \<lparr>body = b, expiresAt = Add 101 (cacheTTL ?c)\<rparr>"
    using cache_hit_iff [of ?c "sampleURL 1" ?e 100 101 False] t en by simp
  then have 2: "cache (snd (hive_get ?e 100 101 (sampleURL 1) False ?c)) (sampleURL 1)
     = Some \<lparr>body = ''new'', expiresAt = 131\<rparr>"
    unfolding n by (simp add: Add_def)
  show ?thesis using t 1 n 2 by blast
qed

section \<open>Properties of FetchAllPages\<close>

text \<open>
  The error that the workers leave in \<open>firstErr\<close> is the first failure in the order in
  which they finish, unless an error was recorded before.
\<close>

lemma foldl_worker_firstErr:
  "fst (snd (foldl (worker fp base) (rs, fe, c) ps)) =
     (case fe of
        Some err \<Rightarrow> Some err
      | None \<Rightarrow> (case find isl (outcomes fp base c ps) of
                   Some r \<Rightarrow> Some (projl r)
                 | None \<Rightarrow> None))"
proof (induction ps arbitrary: rs fe c)
  case Nil
  then show ?case by (simp split: option.splits)
next
  case (Cons p ps)
  obtain r c' where f: "fp (base\<lparr>qPage := p\<rparr>) c = (r, c')"
    by (cases "fp (base\<lparr>qPage := p\<rparr>) c")
  show ?case
  proof (cases r)
    case (Inl err)
    have w: "worker fp base (rs, fe, c) p
           = (rs, (case fe of None \<Rightarrow> Some err | Some e0 \<Rightarrow> Some e0), c')"
      using f Inl by (simp add: worker_def split: option.splits)
    have "fst (snd (foldl (worker fp base) (rs, fe, c) (p # ps)))
        = fst (snd (foldl (worker fp base)
                 (rs, (case fe of None \<Rightarrow> Some err | Some e0 \<Rightarrow> Some e0), c') ps))"
      by (simp only: foldl_Cons w)
    then show ?thesis
      unfolding Cons.IH using f Inl by (simp split: option.splits)
  next
    case (Inr hrraw)
    obtain hr raw where h: "hrraw = (hr, raw)" by (cases hrraw)
    have w: "worker fp base (rs, fe, c) p = (rs[nat (p - 1) := hr], fe, c')"
      using f Inr h by (simp add: worker_def)
    have "fst (snd (foldl (worker fp base) (rs, fe, c) (p # ps)))
        = fst (snd (foldl (worker fp base) (rs[nat (p - 1) := hr], fe, c') ps))"
      by (simp only: foldl_Cons w)
    then show ?thesis
      unfolding Cons.IH using f Inr by (simp split: option.splits)
  qed
qed

text \<open>
  When every job succeeds and the answer of the fetcher for a page does not depend on
  the client state, the result slice does not depend on the order in which the workers
  finish: position \<open>p - 1\<close> holds the answer for page \<open>p\<close>.
\<close>

lemma foldl_worker_ok:
  assumes "\<forall>p\<in>set ps. \<forall>c. \<exists>raw c'. fp (base\<lparr>qPage := p\<rparr>) c = (Inr (a p, raw), c')"
  shows "\<exists>c'. foldl (worker fp base) (rs, fe, c) ps
             = (foldl (\<lambda>rs p. rs[nat (p - 1) := a p]) rs ps, fe, c')"
  using assms
proof (induction ps arbitrary: rs c)
  case Nil
  then show ?case by simp
next
  case (Cons p ps)
  obtain raw c1 where f: "fp (base\<lparr>qPage := p\<rparr>) c = (Inr (a p, raw), c1)"
    using Cons.prems by (meson list.set_intros(1))
  have w: "worker fp base (rs, fe, c) p = (rs[nat (p - 1) := a p], fe, c1)"
    by (simp add: worker_def f)
  have "\<forall>p\<in>set ps. \<forall>c. \<exists>raw c'. fp (base\<lparr>qPage := p\<rparr>) c = (Inr (a p, raw), c')"
    using Cons.prems by simp
  from Cons.IH [OF this, of "rs[nat (p - 1) := a p]" c1] show ?case
    by (simp only: foldl_Cons w)
qed

lemma foldl_update_nth:
  assumes "\<forall>p\<in>set ps. 1 \<le> p" and "i < length rs"
  shows "foldl (\<lambda>rs p. rs[nat (p - 1) := a p]) rs ps ! i
       = (if int i + 1 \<in> set ps then a (int i + 1) else rs ! i)"
  using assms
proof (induction ps arbitrary: rs rule: rev_induct)
  case Nil
  then show ?case by simp
next
  case (snoc p ps)
  have len: "length (foldl (\<lambda>rs p. rs[nat (p - 1) := a p]) rs ps) = length rs"
    by (induction ps arbitrary: rs) simp_all
  have p1: "1 \<le> p" using snoc.prems by simp
  have ih: "foldl (\<lambda>rs p. rs[nat (p - 1) := a p]) rs ps ! i
       = (if int i + 1 \<in> set ps then a (int i + 1) else rs ! i)"
    using snoc by simp
  show ?case
  proof (cases "nat (p - 1) = i")
    case True
    then have "p = int i + 1" using p1 by auto
    then show ?thesis using snoc.prems(2) len by simp
  next
    case False
    then have "p \<noteq> int i + 1" by auto
    then show ?thesis using False ih by simp
  qed
qed

lemma FetchAllPages_order_independent:
  assumes first: "fp base c = (Inr (first, raw0), c1)"
    and tot: "1 \<le> hrTotalPages first"
    and w: "1 \<le> maxConcurrency c"
    and ok: "\<forall>p\<in>{2..hrTotalPages first}. \<forall>c. \<exists>raw c'. fp (base\<lparr>qPage := p\<rparr>) c = (Inr (a p, raw), c')"
    and perm: "mset (order (jobs (hrTotalPages first))) = mset (jobs (hrTotalPages first))"
  shows "fst (FetchAllPages fp order base c) = Inr (first # map a [2..hrTotalPages first])"
proof -
  let ?n = "hrTotalPages first"
  let ?rs = "(replicate (nat ?n) zeroResponse)[0 := first]"
  let ?ps = "order (jobs ?n)"
  have s: "set ?ps = {2..?n}"
    using perm by (metis mset_eq_setD jobs_def set_upto)
  then have ok': "\<forall>p\<in>set ?ps. \<forall>c. \<exists>raw c'. fp (base\<lparr>qPage := p\<rparr>) c = (Inr (a p, raw), c')"
    using ok by simp
  obtain c2 where r: "foldl (worker fp base) (?rs, None, c1) ?ps
             = (foldl (\<lambda>rs p. rs[nat (p - 1) := a p]) ?rs ?ps, None, c2)"
    using foldl_worker_ok [OF ok', of ?rs None c1] by blast
  let ?res = "foldl (\<lambda>rs p. rs[nat (p - 1) := a p]) ?rs ?ps"
  have len: "length ?res = nat ?n"
  proof -
    have "length (foldl (\<lambda>rs p. rs[nat (p - 1) := a p]) rs ps) = length rs" for rs ps
      by (induction ps arbitrary: rs) simp_all
    then show ?thesis by simp
  qed
  have ge: "\<forall>p\<in>set ?ps. 1 \<le> p" using s by auto
  have eq: "?res = first # map a [2..?n]"
  proof (rule nth_equalityI)
    show "length ?res = length (first # map a [2..?n])"
      using len tot by simp
  next
    fix i assume "i < length ?res"
    then have i: "i < nat ?n" using len by simp
    then have il: "i < length ?rs" by simp
    show "?res ! i = (first # map a [2..?n]) ! i"
    proof (cases i)
      case 0
      then show ?thesis using foldl_update_nth [OF ge il, of a] s tot by simp
    next
      case (Suc j)
      then have m: "int i + 1 \<in> set ?ps" using s i by auto
      have "(first # map a [2..?n]) ! i = map a [2..?n] ! j" using Suc by simp
      also have "\<dots> = a ([2..?n] ! j)" using i Suc by (intro nth_map) simp
      also have "[2..?n] ! j = 2 + int j" using i Suc by (intro nth_upto) simp
      finally show ?thesis
        using foldl_update_nth [OF ge il, of a] m Suc by (simp add: algebra_simps)
    qed
  qed
  have wk: "\<not> (if ?n < maxConcurrency c then ?n else maxConcurrency c) < 0"
    "\<not> ((if ?n < maxConcurrency c then ?n else maxConcurrency c) = 0 \<and> 2 \<le> ?n)"
    using tot w by auto
  have "FetchAllPages fp order base c = (Inr ?res, c2)"
    using first tot wk r by (simp add: FetchAllPages_def Let_def)
  then show ?thesis by (simp only: eq fst_conv)
qed

lemma routerClient_eq:
  "routerClient =
     \<lparr>baseURL = ''https://updates.playhive.com/api/v1/submission'', cache = Map.empty,
      cacheTTL = 30000000000, maxConcurrency = 4, sent = []\<rparr>"
  by (simp add: routerClient_def NewClient_def WithCacheTTL_def WithMaxConcurrency_def)

lemma jobs_3: "jobs 3 = [2, 3]"
  by (simp add: jobs_def upto.simps)

lemma sample_page_query: "(sampleQuery col p)\<lparr>qPage := p'\<rparr> = sampleQuery col p'"
  by (simp add: sampleQuery_def)

lemma sample_buildURL:
  "0 < p \<Longrightarrow>
   buildURL (sampleEnv up dec nup ndec) (routerClient\<lparr>sent := s, cache := m\<rparr>)
     (sampleQuery ''released'' p) = Inr (sampleURL p)"
  by (simp add: buildURL_def statusID_def sampleEnv_def sampleQuery_def asciiLower_def
        columnToStatusID_def sampleURL_def routerClient_eq)

text \<open>A fetch of the sample provider that goes to the network and stores its answer.\<close>

lemma sample_fetch_miss:
  assumes "0 < p" and "p \<le> 3" and "m (sampleURL p) = None"
  shows "FetchPage (sampleEnv threePages decodePage nup ndec) 0 0 (sampleQuery ''released'' p)
           (routerClient\<lparr>sent := s, cache := m\<rparr>)
       = (Inr (samplePage p, pageBody p),
          routerClient\<lparr>sent := s @ [sampleURL p],
                       cache := m(sampleURL p \<mapsto> \<lparr>body = pageBody p, expiresAt = 30000000000\<rparr>)\<rparr>)"
proof -
  from assms(1,2) have "p = 1 \<or> p = 2 \<or> p = 3" by auto
  then have d: "decodePage (pageBody p) = Some (samplePage p)"
    by (auto simp: decodePage_def pageBody_def)
  have l: "length (pageBody p) = 5" by (simp add: pageBody_def)
  show ?thesis
    using assms(3)
    by (simp add: FetchPage_def sample_buildURL [OF assms(1)])
       (simp add: hive_get_def routerClient_eq roundTrip_def threePages_def d l Let_def
          sampleURL_def Add_def sampleQuery_def sampleEnv_def)
qed

text \<open>
  Claim C2: the code departs from it. \<open>FetchAllPages\<close> sends its first request for the
  page number of the query it is given, whatever that is, and stores the answer as page
  1. For the query of page 3 of a provider with three pages, the client of the router
  requests page 3 and page 2, never page 1, and returns the answers of the pages 3, 2, 3
  (the second fetch of page 3 is answered from the cache).
\<close>

theorem fetch_all_from_page_three:
  "fst (FetchAllPages (FetchPage (sampleEnv threePages decodePage DoFailed noCards) 0 0) inOrder
          (sampleQuery ''released'' 3) routerClient)
     = Inr [samplePage 3, samplePage 2, samplePage 3]
   \<and> sent (snd (FetchAllPages (FetchPage (sampleEnv threePages decodePage DoFailed noCards) 0 0)
                   inOrder (sampleQuery ''released'' 3) routerClient))
     = [sampleURL 3, sampleURL 2]"
proof -
  let ?e = "sampleEnv threePages decodePage DoFailed noCards"
  let ?m1 = "[sampleURL 3 \<mapsto> \<lparr>body = pageBody 3, expiresAt = 30000000000\<rparr>]"
  let ?c1 = "routerClient\<lparr>sent := [sampleURL 3], cache := ?m1\<rparr>"
  let ?m2 = "?m1(sampleURL 2 \<mapsto> \<lparr>body = pageBody 2, expiresAt = 30000000000\<rparr>)"
  let ?c2 = "routerClient\<lparr>sent := [sampleURL 3, sampleURL 2], cache := ?m2\<rparr>"
  have f1: "FetchPage ?e 0 0 (sampleQuery ''released'' 3) routerClient
          = (Inr (samplePage 3, pageBody 3), ?c1)"
    using sample_fetch_miss [where p = 3 and m = Map.empty and s = "[]" and nup = DoFailed
        and ndec = noCards]
    by (simp add: routerClient_eq)
  have f2: "FetchPage ?e 0 0 (sampleQuery ''released'' 2) ?c1 = (Inr (samplePage 2, pageBody 2), ?c2)"
    using sample_fetch_miss [where p = 2 and m = ?m1 and s = "[sampleURL 3]" and nup = DoFailed
        and ndec = noCards]
    by (simp add: sampleURL_def)
  have f3: "FetchPage ?e 0 0 (sampleQuery ''released'' 3) ?c2 = (Inr (samplePage 3, pageBody 3), ?c2)"
    by (simp add: FetchPage_def sample_buildURL)
       (simp add: hive_get_def routerClient_eq Before_def decodePage_def pageBody_def
          sampleURL_def sampleQuery_def sampleEnv_def)
  have t: "hrTotalPages (samplePage 3) = 3" by (simp add: samplePage_def)
  have m: "maxConcurrency routerClient = 4" by (simp add: routerClient_eq)
  have "FetchAllPages (FetchPage ?e 0 0) inOrder (sampleQuery ''released'' 3) routerClient
      = (Inr [samplePage 3, samplePage 2, samplePage 3], ?c2)"
    by (simp add: FetchAllPages_def f1 t m jobs_3 inOrder_def worker_def sample_page_query f2 f3
          Let_def numeral_3_eq_3)
  then show ?thesis by (simp add: routerClient_eq)
qed

text \<open>
  Claim C3. When the first request fails, \<open>FetchAllPages\<close> returns its error. When the
  first page declares a positive number of pages and the fetch of some job fails, it
  returns the first failure in the order in which the workers finish, whatever that
  order is, and no response: the answers of the pages that succeeded are dropped with
  the result slice. The client is one with at least one worker, as \<open>NewClient\<close> builds it.
\<close>

theorem first_error_wins:
  "(fp base c = (Inl err, c1) \<longrightarrow> FetchAllPages fp order base c = (Inl err, c1))
   \<and> (1 \<le> maxConcurrency c \<and> fp base c = (Inr (first, raw), c1) \<and> 0 < hrTotalPages first
       \<and> find isl (outcomes fp base c1 (order (jobs (hrTotalPages first)))) = Some (Inl err) \<longrightarrow>
        fst (FetchAllPages fp order base c) = Inl err)"
proof (intro conjI impI)
  assume "fp base c = (Inl err, c1)"
  then show "FetchAllPages fp order base c = (Inl err, c1)"
    by (simp add: FetchAllPages_def)
next
  assume a: "1 \<le> maxConcurrency c \<and> fp base c = (Inr (first, raw), c1) \<and> 0 < hrTotalPages first
       \<and> find isl (outcomes fp base c1 (order (jobs (hrTotalPages first)))) = Some (Inl err)"
  let ?n = "hrTotalPages first"
  let ?rs = "(replicate (nat ?n) zeroResponse)[0 := first]"
  let ?r = "foldl (worker fp base) (?rs, None, c1) (order (jobs ?n))"
  have w: "\<not> (if ?n < maxConcurrency c then ?n else maxConcurrency c) < 0"
    "\<not> ((if ?n < maxConcurrency c then ?n else maxConcurrency c) = 0 \<and> 2 \<le> ?n)"
    using a by auto
  have fe: "fst (snd ?r) = Some err"
    using a by (simp add: foldl_worker_firstErr)
  obtain rs' c2 where r: "?r = (rs', Some err, c2)"
    using fe by (cases ?r) auto
  have "FetchAllPages fp order base c = (Inl err, c2)"
    using a w r by (simp add: FetchAllPages_def Let_def)
  then show "fst (FetchAllPages fp order base c) = Inl err" by simp
qed

text \<open>
  The scenario of the specification: three pages, the request for page 2 fails in
  transport, pages 1 and 3 succeed, and the workers finish page 3 before page 2.
\<close>

theorem first_error_wins_witness:
  "1 \<le> maxConcurrency routerClient
   \<and> fst (FetchPage (sampleEnv threePagesFail2 decodePage DoFailed noCards) 0 0
            (sampleQuery ''released'' 1) routerClient) = Inr (samplePage 1, pageBody 1)
   \<and> 0 < hrTotalPages (samplePage 1)
   \<and> map isl (outcomes (FetchPage (sampleEnv threePagesFail2 decodePage DoFailed noCards) 0 0)
          (sampleQuery ''released'' 1)
          (snd (FetchPage (sampleEnv threePagesFail2 decodePage DoFailed noCards) 0 0
                  (sampleQuery ''released'' 1) routerClient))
          (reversed (jobs 3))) = [False, True]
   \<and> fst (FetchAllPages (FetchPage (sampleEnv threePagesFail2 decodePage DoFailed noCards) 0 0)
            reversed (sampleQuery ''released'' 1) routerClient) = Inl TransportError"
proof -
  let ?e = "sampleEnv threePagesFail2 decodePage DoFailed noCards"
  let ?fp = "FetchPage ?e 0 0"
  let ?q = "sampleQuery ''released'' 1"
  let ?m1 = "[sampleURL 1 \<mapsto> \<lparr>body = pageBody 1, expiresAt = 30000000000\<rparr>]"
  let ?c1 = "routerClient\<lparr>sent := [sampleURL 1], cache := ?m1\<rparr>"
  let ?m3 = "?m1(sampleURL 3 \<mapsto> \<lparr>body = pageBody 3, expiresAt = 30000000000\<rparr>)"
  let ?c3 = "routerClient\<lparr>sent := [sampleURL 1, sampleURL 3], cache := ?m3\<rparr>"
  let ?c2 = "routerClient\<lparr>sent := [sampleURL 1, sampleURL 3, sampleURL 2], cache := ?m3\<rparr>"
  have b: "0 < p \<Longrightarrow> buildURL ?e (routerClient\<lparr>sent := s, cache := m\<rparr>)
              (sampleQuery ''released'' p) = Inr (sampleURL p)" for p s m
    by (rule sample_buildURL)
  have f1: "?fp ?q routerClient = (Inr (samplePage 1, pageBody 1), ?c1)"
    using b [where p = 1 and s = "[]" and m = Map.empty]
    by (simp add: FetchPage_def routerClient_eq)
       (simp add: hive_get_def roundTrip_def threePagesFail2_def decodePage_def pageBody_def
          Let_def sampleURL_def Add_def sampleQuery_def sampleEnv_def)
  have f3: "?fp (sampleQuery ''released'' 3) ?c1 = (Inr (samplePage 3, pageBody 3), ?c3)"
    by (simp add: FetchPage_def b)
       (simp add: hive_get_def routerClient_eq roundTrip_def threePagesFail2_def decodePage_def
          pageBody_def Let_def sampleURL_def Add_def sampleQuery_def sampleEnv_def)
  have f2: "?fp (sampleQuery ''released'' 2) ?c3 = (Inl TransportError, ?c2)"
    by (simp add: FetchPage_def b)
       (simp add: hive_get_def routerClient_eq roundTrip_def threePagesFail2_def
          sampleURL_def sampleQuery_def sampleEnv_def)
  have m: "1 \<le> maxConcurrency routerClient" by (simp add: routerClient_eq)
  have t: "hrTotalPages (samplePage 1) = 3" by (simp add: samplePage_def)
  have o: "outcomes ?fp ?q ?c1 (reversed (jobs 3))
         = [Inr (samplePage 3, pageBody 3), Inl TransportError]"
    by (simp add: jobs_3 reversed_def sample_page_query f3 f2)
  have "fst (FetchAllPages ?fp reversed ?q routerClient) = Inl TransportError"
    using first_error_wins [where fp = ?fp and base = ?q and c = routerClient
        and first = "samplePage 1" and raw = "pageBody 1" and ?c1.0 = ?c1 and order = reversed
        and err = TransportError] m f1 t o
    by simp
  then show ?thesis using m f1 t o by simp
qed

section \<open>Properties of the paginator\<close>

lemma wrap64_id: "- (2 ^ 63) \<le> x \<Longrightarrow> x < 2 ^ 63 \<Longrightarrow> wrap64 x = x"
  by (simp add: wrap64_def)

lemma sdiv_nonneg: "0 \<le> a \<Longrightarrow> 0 < b \<Longrightarrow> a sdiv b = a div (b::int)"
  by (simp add: signed_divide_int_def sgn_if)

text \<open>The number of pages of \<open>x\<close> items, for a page size \<open>l\<close>.\<close>

lemma ceil_one: "1 \<le> x \<Longrightarrow> x \<le> l \<Longrightarrow> (x + l - 1) div l = (1::int)"
proof -
  assume a: "1 \<le> x" "x \<le> l"
  have e: "x + l - 1 = x - 1 + l" by simp
  have "(x - 1 + l) div l = (x - 1) div l + 1"
    by (rule div_add_self2) (use a in simp)
  moreover have "(x - 1) div l = 0" using a by (simp add: div_pos_pos_trivial)
  ultimately show ?thesis unfolding e by (simp only:)
qed

lemma ceil_step: "0 < l \<Longrightarrow> (x + l - 1) div l = (x - l + l - 1) div l + (1::int)"
proof -
  assume "0 < l"
  then have "(x - 1 + l) div l = (x - 1) div l + 1"
    by (intro div_add_self2) simp
  moreover have e: "x + l - 1 = x - 1 + l" "x - l + l - 1 = x - 1" by simp_all
  ultimately show ?thesis unfolding e by (simp only:)
qed

lemma length_insertStable: "length (insertStable lt x xs) = Suc (length xs)"
  by (induction xs) auto

lemma length_foldl_insertStable:
  "length (foldl (\<lambda>acc x. insertStable lt x acc) acc xs) = length acc + length xs"
  by (induction xs arbitrary: acc) (auto simp: length_insertStable)

lemma length_SliceStable: "length (SliceStable lt xs) = length xs"
  by (simp add: SliceStable_def length_foldl_insertStable)

text \<open>
  The loop of \<open>All\<close> while no sum leaves the range of \<open>int\<close>: it returns
  \<open>\<lceil>(n - offset) / limit\<rceil>\<close> pages, numbered from \<open>p\<close>, that hold the items from
  \<open>offset\<close> on, and every page reports the same totals.
\<close>

lemma pagesLoop_in_range:
  assumes "1 \<le> limit" and "n = int (length items)" and "0 \<le> offset" and "n + limit < 2 ^ 63"
  shows "\<exists>pages. pagesLoop e items n limit p offset = Inr pages
           \<and> int (length pages) = (if offset < n then (n - offset + limit - 1) div limit else 0)
           \<and> (\<forall>pg\<in>set pages. Limit (Meta pg) = limit
                  \<and> TotalPages (Meta pg) = (n + limit - 1) div limit
                  \<and> TotalResults (Meta pg) = n)
           \<and> map (\<lambda>pg. Page (Meta pg)) pages = map (\<lambda>i. p + int i) [0..<length pages]
           \<and> length (concat (map Items pages)) = nat (n - offset)"
  using assms
proof (induction "nat (n - offset)" arbitrary: p offset rule: less_induct)
  case less
  show ?case
  proof (cases "offset < n")
    case False
    then show ?thesis by (subst pagesLoop.simps) simp
  next
    case True
    let ?end0 = "offset + limit"
    let ?end1 = "if ?end0 > n then n else ?end0"
    have w0: "wrap64 (offset + limit) = ?end0"
      using less.prems True by (intro wrap64_id) auto
    have tp: "wrap64 (n + limit - 1) sdiv limit = (n + limit - 1) div limit"
      using less.prems True by (subst wrap64_id) (auto simp: sdiv_nonneg)
    let ?pg = "\<lparr>Meta = \<lparr>Page = p, Limit = limit, TotalPages = (n + limit - 1) div limit,
                         TotalResults = n\<rparr>,
                Items = map (itemDTO e p) (take (nat (?end1 - offset)) (drop (nat offset) items))\<rparr>"
    have len: "length (Items ?pg) = nat (?end1 - offset)"
      using less.prems True by auto
    have m: "nat (n - ?end0) < nat (n - offset)" using less.prems True by auto
    obtain rest where r: "pagesLoop e items n limit (p + 1) ?end0 = Inr rest"
      and rl: "int (length rest) = (if ?end0 < n then (n - ?end0 + limit - 1) div limit else 0)"
      and rm: "\<forall>pg\<in>set rest. Limit (Meta pg) = limit
                  \<and> TotalPages (Meta pg) = (n + limit - 1) div limit
                  \<and> TotalResults (Meta pg) = n"
      and rp: "map (\<lambda>pg. Page (Meta pg)) rest = map (\<lambda>i. p + 1 + int i) [0..<length rest]"
      and rc: "length (concat (map Items rest)) = nat (n - ?end0)"
      using less.hyps [OF m, of "p + 1"] less.prems True by auto
    have unf: "pagesLoop e items n limit p offset = Inr (?pg # rest)"
      using less.prems(1,3) True
      by (subst pagesLoop.simps) (simp add: w0 tp r Let_def)
    have cnt: "int (length (?pg # rest)) = (n - offset + limit - 1) div limit"
    proof (cases "?end0 < n")
      case True
      have "(n - offset + limit - 1) div limit = (n - offset - limit + limit - 1) div limit + 1"
        using less.prems(1) ceil_step [of limit "n - offset"] by simp
      then show ?thesis using rl True by (simp add: algebra_simps)
    next
      case False
      have "(n - offset + limit - 1) div limit = 1"
        using \<open>offset < n\<close> False by (intro ceil_one) auto
      then show ?thesis using rl False by simp
    qed
    have pgs: "map (\<lambda>pg. Page (Meta pg)) (?pg # rest) = map (\<lambda>i. p + int i) [0..<length (?pg # rest)]"
    proof -
      have "[Suc 0..<Suc (length rest)] = map Suc [0..<length rest]"
        by (simp only: map_Suc_upt)
      then have "map (\<lambda>i. p + int i) [0..<Suc (length rest)]
          = p # map (\<lambda>i. p + 1 + int i) [0..<length rest]"
        by (simp add: upt_conv_Cons o_def del: upt_Suc)
      then show ?thesis using rp by simp
    qed
    have con: "length (concat (map Items (?pg # rest))) = nat (n - offset)"
      using rc len less.prems True by auto
    show ?thesis
      unfolding unf using cnt rm pgs con True by auto
  qed
qed

text \<open>Whatever the page size, the pages that the loop returns hold the items from \<open>offset\<close> on.\<close>

lemma pagesLoop_items:
  assumes "pagesLoop e items n limit p offset = Inr pages" and "n = int (length items)"
    and "0 \<le> offset"
  shows "length (concat (map Items pages)) = nat (n - offset)"
  using assms
proof (induction "nat (n - offset)" arbitrary: p offset pages rule: less_induct)
  case less
  show ?case
  proof (cases "offset < n")
    case False
    then have "pages = []" using less.prems(1) by (subst (asm) pagesLoop.simps) simp
    then show ?thesis using False by simp
  next
    case True
    let ?end0 = "wrap64 (offset + limit)"
    let ?end1 = "if ?end0 > n then n else ?end0"
    from less.prems(1) True
    have np: "\<not> (offset < 0 \<or> ?end1 < offset)" and nb: "?end0 \<noteq> offset"
      by (subst (asm) pagesLoop.simps, simp add: Let_def split: if_splits)+
    from less.prems(1) True np nb
    obtain rest where r: "pagesLoop e items n limit (p + 1) ?end0 = Inr rest"
      and pg: "pages = \<lparr>Meta = \<lparr>Page = p, Limit = limit,
                                   TotalPages = wrap64 (n + limit - 1) sdiv limit,
                                   TotalResults = n\<rparr>,
                          Items = map (itemDTO e p)
                                    (take (nat (?end1 - offset)) (drop (nat offset) items))\<rparr> # rest"
      by (subst (asm) pagesLoop.simps) (auto simp: Let_def split: if_splits sum.splits)
    have gt: "offset < ?end0" using np nb True by (auto split: if_splits)
    then have m: "nat (n - ?end0) < nat (n - offset)" and nn: "0 \<le> ?end0"
      using True less.prems(3) by auto
    have "length (concat (map Items rest)) = nat (n - ?end0)"
      using less.hyps [OF m r less.prems(2) nn] .
    moreover have "length (take (nat (?end1 - offset)) (drop (nat offset) items)) = nat (?end1 - offset)"
      using less.prems(2,3) True by auto
    ultimately show ?thesis
      unfolding pg using gt True less.prems(3) by (auto split: if_splits)
  qed
qed

lemma cardItem_no_filter: "length (cardItem e [] c) = 1"
  by (simp add: cardItem_def contains_def Let_def)

lemma filterCards_unknown:
  "ToLower e column \<notin> dom columnToStatus \<Longrightarrow> length (filterCards e column cards) = length cards"
  by (induction cards) (auto simp: filterCards_def cardItem_no_filter domIff)

lemma ceilDiv_eq: "0 < l \<Longrightarrow> (n + l - 1) div l = ceilDiv n (l::int)"
proof -
  assume l: "0 < l"
  have "n = l * (n div l) + n mod l" by simp
  show ?thesis
  proof (cases "n mod l = 0")
    case True
    then obtain k where k: "n = k * l" by (metis mod_eq_0_iff_dvd dvd_def mult.commute)
    have "(k * l + (l - 1)) div l = k + (l - 1) div l"
      using l by (simp add: div_mult_self3)
    moreover have "(l - 1) div l = 0" using l by (simp add: div_pos_pos_trivial)
    moreover have "k * l + l - 1 = k * l + (l - 1)" by simp
    ultimately have "(n + l - 1) div l = k" unfolding k by (simp only:)
    moreover have "(- k) * l div l = - k" using l by (intro nonzero_mult_div_cancel_right) simp
    then have "ceilDiv n l = k" by (simp add: ceilDiv_def k)
    ultimately show ?thesis by simp
  next
    case False
    have "(- n) div l = - (n div l) - 1"
      using False l by (simp add: zdiv_zminus1_eq_if)
    then have c: "ceilDiv n l = n div l + 1" by (simp add: ceilDiv_def)
    have r0: "0 \<le> n mod l" using l by (rule pos_mod_sign)
    have r: "0 < n mod l" "n mod l < l"
      using False r0 pos_mod_bound [OF l, of n] by linarith+
    have e: "n + l - 1 = (n div l + 1) * l + (n mod l - 1)"
      by (simp add: algebra_simps)
    have d: "((n div l + 1) * l + (n mod l - 1)) div l = n div l + 1 + (n mod l - 1) div l"
      using l by (simp add: div_mult_self3)
    have z: "(n mod l - 1) div l = 0" using r by (simp add: div_pos_pos_trivial)
    show ?thesis unfolding e d z c by simp
  qed
qed

text \<open>
  \<open>All\<close> on the cards that \<open>Fetch\<close> returns, while \<open>total + limit\<close> stays in the range
  of \<open>int\<close>: the page count is the one of the specification.
\<close>

lemma All_in_range:
  assumes f: "Fetch e now now' (ccSvcClient s) = (Inr cards, c')"
    and lim: "limit = (if limit0 \<le> 0 then 10 else limit0)"
    and n: "n = int (length (filterCards e column cards))"
    and rng: "n + limit < 2 ^ 63"
  shows "\<exists>pages. fst (cubecraft_All e now now' t column limit0 sortBy s) = Inr pages
           \<and> int (length pages) = specTotalPages n limit
           \<and> (\<forall>pg\<in>set pages. Limit (Meta pg) = limit
                  \<and> TotalPages (Meta pg) = specTotalPages n limit
                  \<and> TotalResults (Meta pg) = n)
           \<and> map (\<lambda>pg. Page (Meta pg)) pages = map (\<lambda>i. 1 + int i) [0..<length pages]
           \<and> int (length (concat (map Items pages))) = n"
proof -
  let ?items = "SliceStable (sortLess e (normalizeSort e sortBy column)) (filterCards e column cards)"
  have l1: "1 \<le> limit" using lim by auto
  have len: "int (length ?items) = n" by (simp add: n length_SliceStable)
  show ?thesis
  proof (cases "n = 0")
    case True
    have "ceilDiv 0 limit = 0" by (simp add: ceilDiv_def)
    moreover have "?items = []" using len True by simp
    ultimately show ?thesis
      using f lim True
      by (simp add: cubecraft_All_def Let_def filterCards_def [symmetric] specTotalPages_def)
  next
    case False
    then have pos: "1 \<le> n" using n by (cases "filterCards e column cards") auto
    have c: "(n + limit - 1) div limit = ceilDiv n limit" using l1 by (intro ceilDiv_eq) simp
    have ge: "1 \<le> (n + limit - 1) div limit"
    proof -
      have "limit div limit \<le> (n + limit - 1) div limit"
        using pos l1 by (intro zdiv_mono1) auto
      then show ?thesis using l1 by simp
    qed
    then have sp: "specTotalPages n limit = (n + limit - 1) div limit"
      by (simp add: specTotalPages_def c)
    have tp: "wrap64 (n + limit - 1) sdiv limit = (n + limit - 1) div limit"
      using rng pos l1 by (subst wrap64_id) (auto simp: sdiv_nonneg)
    from pagesLoop_in_range [OF l1 len [symmetric] _ rng, of 0 e 1]
    obtain pages where p: "pagesLoop e ?items n limit 1 0 = Inr pages"
      and pl: "int (length pages) = (n + limit - 1) div limit"
      and pm: "\<forall>pg\<in>set pages. Limit (Meta pg) = limit
                  \<and> TotalPages (Meta pg) = (n + limit - 1) div limit
                  \<and> TotalResults (Meta pg) = n"
      and pp: "map (\<lambda>pg. Page (Meta pg)) pages = map (\<lambda>i. 1 + int i) [0..<length pages]"
      and pc: "length (concat (map Items pages)) = nat n"
      using pos by auto
    have ne: "?items \<noteq> []" using len False by auto
    have "fst (cubecraft_All e now now' t column limit0 sortBy s) = Inr pages"
      using f len tp ge p ne unfolding lim
      by (simp add: cubecraft_All_def Let_def filterCards_def [symmetric])
    then show ?thesis using pl pm pp pc sp pos by auto
  qed
qed

text \<open>\<open>All\<close> on a non-empty item set whose page count does not come out negative.\<close>

lemma All_pages:
  assumes "Fetch e now now' (ccSvcClient s) = (Inr cards, c')"
    and "items = SliceStable (sortLess e (normalizeSort e sortBy column)) (filterCards e column cards)"
    and "items \<noteq> []"
    and "limit = (if limit0 \<le> 0 then 10 else limit0)"
    and "\<not> wrap64 (int (length items) + limit - 1) sdiv limit < 0"
  shows "fst (cubecraft_All e now now' t column limit0 sortBy s)
       = pagesLoop e items (int (length items)) limit 1 0"
  using assms by (simp add: cubecraft_All_def Let_def filterCards_def [symmetric])

section \<open>Properties of the column check\<close>

lemma buildURL_unknown:
  "ToLower e (qColumn q) \<notin> dom columnToStatusID \<Longrightarrow>
   buildURL e c q = Inl (UnknownColumn (qColumn q))"
  by (auto simp: buildURL_def statusID_def Let_def domIff)

lemma FetchPage_unknown:
  "ToLower e (qColumn q) \<notin> dom columnToStatusID \<Longrightarrow>
   FetchPage e now now' q c = (Inl (UnknownColumn (qColumn q)), c)"
  by (simp add: FetchPage_def buildURL_unknown)

lemma GetPage_unknown:
  "ToLower e (qColumn q) \<notin> dom columnToStatusID \<Longrightarrow>
   GetPage e now now' t q s = (Inl (UnknownColumn (qColumn q)), s)"
  by (simp add: GetPage_def FetchPage_unknown)

lemma GetAll_unknown:
  "ToLower e (qColumn q) \<notin> dom columnToStatusID \<Longrightarrow>
   GetAll e clk order t q s = (Inl (UnknownColumn (qColumn q)), s)"
  by (simp add: GetAll_def FetchAllPages_def FetchPage_unknown)

lemma notionRoundTrip_errors:
  "fst (notionRoundTrip e now' c) = Inl err \<Longrightarrow>
   err = RequestError \<or> err = TransportError \<or> err = ReadError \<or> err = DecodeError"
  by (auto simp: notionRoundTrip_def Let_def split: httpOutcome.splits if_splits option.splits)

lemma Fetch_errors:
  "fst (Fetch e now now' c) = Inl err \<Longrightarrow>
   err = RequestError \<or> err = TransportError \<or> err = ReadError \<or> err = DecodeError"
  using notionRoundTrip_errors [of e now' c err]
  by (auto simp: Fetch_def split: if_splits option.splits)

lemma pagesLoop_errors:
  "pagesLoop e items n limit p offset = Inl err \<Longrightarrow> err = Panic \<or> err = Blocked"
proof (induction "nat (n - offset)" arbitrary: p offset rule: less_induct)
  case less
  let ?end0 = "wrap64 (offset + limit)"
  let ?end1 = "if ?end0 > n then n else ?end0"
  have lt: "offset < n"
    using less.prems by (subst (asm) pagesLoop.simps) (simp split: if_splits)
  show ?case
  proof (cases "offset < 0 \<or> ?end1 < offset")
    case True
    then show ?thesis
      using less.prems lt by (subst (asm) pagesLoop.simps) (simp add: Let_def)
  next
    case np: False
    show ?thesis
    proof (cases "?end0 = offset")
      case True
      then show ?thesis
        using less.prems lt np by (subst (asm) pagesLoop.simps) (simp add: Let_def)
    next
      case nb: False
      have r: "pagesLoop e items n limit (p + 1) ?end0 = Inl err"
        using less.prems lt np nb
        by (subst (asm) pagesLoop.simps) (simp add: Let_def split: sum.splits)
      have "offset < ?end0" using np nb lt by (auto split: if_splits)
      then have "nat (n - ?end0) < nat (n - offset)" using lt by auto
      from less.hyps [OF this r] show ?thesis .
    qed
  qed
qed

lemma All_client:
  "ccSvcClient (snd (cubecraft_All e now now' t column limit0 sortBy s))
   = snd (Fetch e now now' (ccSvcClient s))"
  by (cases "Fetch e now now' (ccSvcClient s)")
     (auto simp: cubecraft_All_def Let_def split: sum.splits)

lemma All_errors:
  assumes "fst (cubecraft_All e now now' t column limit0 sortBy s) = Inl err"
  shows "fst (Fetch e now now' (ccSvcClient s)) = Inl err \<or> err = Panic \<or> err = Blocked"
proof (cases "Fetch e now now' (ccSvcClient s)")
  case (Pair r c')
  show ?thesis
  proof (cases r)
    case (Inl err')
    then show ?thesis using assms Pair by (simp add: cubecraft_All_def Let_def)
  next
    case (Inr cards)
    then show ?thesis
      using assms Pair pagesLoop_errors
      by (auto simp: cubecraft_All_def Let_def split: if_splits)
  qed
qed

lemma All_unfiltered:
  assumes u: "ToLower e column \<notin> dom columnToStatus"
    and f: "fst (Fetch e now now' (ccSvcClient s)) = Inr cards"
    and a: "fst (cubecraft_All e now now' t column limit0 sortBy s) = Inr pages"
  shows "length (concat (map Items pages)) = length cards"
proof -
  let ?items = "SliceStable (sortLess e (normalizeSort e sortBy column)) (filterCards e column cards)"
  have len: "length ?items = length cards"
    by (simp add: length_SliceStable filterCards_unknown [OF u])
  obtain c' where fe: "Fetch e now now' (ccSvcClient s) = (Inr cards, c')"
    using f by (cases "Fetch e now now' (ccSvcClient s)") auto
  show ?thesis
  proof (cases "?items = []")
    case True
    then have "pages = [\<lparr>Meta = \<lparr>Page = 1, Limit = (if limit0 \<le> 0 then 10 else limit0),
                                 TotalPages = 1, TotalResults = 0\<rparr>, Items = []\<rparr>]"
      using a fe by (simp add: cubecraft_All_def Let_def filterCards_def [symmetric])
    then show ?thesis using True len by simp
  next
    case False
    then have "pagesLoop e ?items (int (length ?items)) (if limit0 \<le> 0 then 10 else limit0) 1 0
             = Inr pages"
      using a fe
      by (simp add: cubecraft_All_def Let_def filterCards_def [symmetric] split: if_splits)
    from pagesLoop_items [OF this refl] show ?thesis using len by simp
  qed
qed

lemma Page_client:
  "ccSvcClient (snd (cubecraft_Page e now now' t column page limit sortBy s))
   = snd (Fetch e now now' (ccSvcClient s))"
  using All_client [of e now now' t column limit sortBy s]
  by (cases "cubecraft_All e now now' t column limit sortBy s")
     (auto simp: cubecraft_Page_def Let_def split: sum.splits)

lemma Page_errors:
  assumes "fst (cubecraft_Page e now now' t column page limit sortBy s) = Inl err"
  shows "fst (Fetch e now now' (ccSvcClient s)) = Inl err \<or> err = Panic \<or> err = Blocked"
proof -
  have "fst (cubecraft_All e now now' t column limit sortBy s) = Inl err"
    using assms
    by (cases "cubecraft_All e now now' t column limit sortBy s")
       (auto simp: cubecraft_Page_def Let_def split: sum.splits if_splits)
  then show ?thesis by (rule All_errors)
qed

text \<open>The sample provider: a fetch on the fresh service of the router.\<close>

lemma sample_Fetch:
  "ndec ''{}'' = Some cards \<Longrightarrow>
   Fetch (notionEnv ndec) 0 0 (ccSvcClient routerService)
     = (Inr cards, \<lparr>ccCacheTTL = 120000000000,
                     ccCache = Some \<lparr>data = cards, ccExpiresAt = 120000000000\<rparr>,
                     ccSent = 1\<rparr>)"
  by (simp add: Fetch_def notionRoundTrip_def notionEnv_def sampleEnv_def routerService_def
        ccNewService_def ccNewClient_def ccWithCacheTTL_def Add_def)

lemma sample_lower:
  "asciiLower ''released'' = ''released''" "asciiLower ''bogus'' = ''bogus''"
  by (simp_all add: asciiLower_def)

lemma sample_cardItem_released:
  "length (cardItem e [''Released''] (sampleCard i ''Released'')) = 1"
  by (simp add: cardItem_def sampleCard_def renameMap_def keyMap_def index_def contains_def Let_def)

text \<open>A page size that is at least the number of items gives the single page of all items.\<close>

lemma pagesLoop_single:
  assumes "n = int (length items)" and "1 \<le> n" and "n \<le> limit" and "limit < 2 ^ 63"
  shows "pagesLoop e items n limit p 0 =
           Inr [\<lparr>Meta = \<lparr>Page = p, Limit = limit,
                          TotalPages = wrap64 (n + limit - 1) sdiv limit, TotalResults = n\<rparr>,
                  Items = map (itemDTO e p) items\<rparr>]"
proof -
  have w: "wrap64 limit = limit" using assms by (simp add: wrap64_id)
  have r: "pagesLoop e items n limit (p + 1) limit = Inr []"
    using assms by (subst pagesLoop.simps) simp
  have t: "take (nat n) items = items" using assms(1) by simp
  show ?thesis
  proof (cases "n < limit")
    case True
    then show ?thesis
      using assms(2) by (subst pagesLoop.simps) (simp add: w r t Let_def)
  next
    case False
    then have "limit = n" using assms(3) by simp
    then show ?thesis
      using assms(2) r t w by (subst pagesLoop.simps) (simp add: Let_def)
  qed
qed

lemma sample_filter_released:
  "filterCards (notionEnv ndec) ''released'' (map (\<lambda>i. sampleCard i ''Released'') ids)
   = concat (map (\<lambda>i. cardItem (notionEnv ndec) [''Released''] (sampleCard i ''Released'')) ids)"
  by (simp add: filterCards_def notionEnv_def sampleEnv_def sample_lower columnToStatus_def
        comp_def)

lemma sample_filter_released_length:
  "length (filterCards (notionEnv ndec) ''released'' (map (\<lambda>i. sampleCard i ''Released'') ids))
   = length ids"
  unfolding sample_filter_released
  by (induction ids) (simp_all add: sample_cardItem_released)

text \<open>
  Claim C1: the code departs from it. With one released card and a page size of 10 there
  is one page, and \<open>All\<close> reports one result in its metadata. \<open>Page\<close> answers the
  request for page 2 without an error, with no items and with the page count 1, but with
  the result count 0: the branch for a page beyond the last one sets \<open>TotalResults\<close> to
  the constant 0.
\<close>

theorem page_beyond_last_reports_zero:
  "fst (cubecraft_Page (notionEnv oneReleased) 0 0 0 ''released'' 2 10 [] routerService)
     = Inr \<lparr>Meta = \<lparr>Page = 2, Limit = 10, TotalPages = 1, TotalResults = 0\<rparr>, Items = []\<rparr>
   \<and> map (\<lambda>pg. TotalResults (Meta pg))
        (projr (fst (cubecraft_All (notionEnv oneReleased) 0 0 0 ''released'' 10 []
                       routerService))) = [1]"
proof -
  let ?e = "notionEnv oneReleased"
  let ?cards = "[sampleCard ''a'' ''Released'']"
  have f: "Fetch ?e 0 0 (ccSvcClient routerService)
         = (Inr ?cards, \<lparr>ccCacheTTL = 120000000000,
                          ccCache = Some \<lparr>data = ?cards, ccExpiresAt = 120000000000\<rparr>,
                          ccSent = 1\<rparr>)"
    by (rule sample_Fetch) (simp add: oneReleased_def)
  have n: "(1::int) = int (length (filterCards ?e ''released'' ?cards))"
    using sample_filter_released_length [of oneReleased "[''a'']"] by simp
  from All_in_range [OF f _ n, of 10 10 0 "[]"]
  obtain pages where a: "fst (cubecraft_All ?e 0 0 0 ''released'' 10 [] routerService) = Inr pages"
    and l: "int (length pages) = specTotalPages 1 10"
    and m: "\<forall>pg\<in>set pages. TotalResults (Meta pg) = 1"
    by auto
  have "specTotalPages 1 10 = 1" by (simp add: specTotalPages_def ceilDiv_def)
  then have l1: "length pages = 1" using l by simp
  then obtain pg where pg: "pages = [pg]" by (cases pages) auto
  obtain s' where s: "cubecraft_All ?e 0 0 0 ''released'' 10 [] routerService = (Inr pages, s')"
    using a by (cases "cubecraft_All ?e 0 0 0 ''released'' 10 [] routerService") auto
  have "fst (cubecraft_Page ?e 0 0 0 ''released'' 2 10 [] routerService)
     = Inr \<lparr>Meta = \<lparr>Page = 2, Limit = 10, TotalPages = 1, TotalResults = 0\<rparr>, Items = []\<rparr>"
    by (simp add: cubecraft_Page_def s l1)
  moreover have "map (\<lambda>pg. TotalResults (Meta pg)) (projr (fst (cubecraft_All ?e 0 0 0 ''released''
      10 [] routerService))) = [1]"
    using m by (simp add: a pg)
  ultimately show ?thesis by simp
qed

text \<open>
  Claim C6: the code departs from it at page sizes near the largest \<open>int\<close>. With four
  released cards and the page size \<open>2^63 - 1\<close> the sum \<open>total + limit - 1\<close> wraps
  around to a negative number, the division gives 0, and the one page that \<open>All\<close>
  returns reports a page count of 0 where \<open>max(1, ceil(4 / limit))\<close> is 1.
\<close>

theorem huge_page_size_reports_zero_pages:
  "map Meta (projr (fst (cubecraft_All (notionEnv fourReleased) 0 0 0 ''released''
                           9223372036854775807 [] routerService)))
     = [\<lparr>Page = 1, Limit = 9223372036854775807, TotalPages = 0, TotalResults = 4\<rparr>]
   \<and> specTotalPages 4 9223372036854775807 = 1"
proof -
  let ?e = "notionEnv fourReleased"
  let ?cards = "map (\<lambda>i. sampleCard i ''Released'') [''a'', ''b'', ''c'', ''d'']"
  let ?items = "SliceStable (sortLess ?e (normalizeSort ?e [] ''released''))
                  (filterCards ?e ''released'' ?cards)"
  have f: "Fetch ?e 0 0 (ccSvcClient routerService)
         = (Inr ?cards, \<lparr>ccCacheTTL = 120000000000,
                          ccCache = Some \<lparr>data = ?cards, ccExpiresAt = 120000000000\<rparr>,
                          ccSent = 1\<rparr>)"
    by (rule sample_Fetch) (simp add: fourReleased_def)
  have len: "int (length ?items) = 4"
    by (simp only: length_SliceStable sample_filter_released_length) simp
  then have ne: "?items \<noteq> []" by auto
  have tp: "wrap64 (4 + 9223372036854775807 - 1) sdiv 9223372036854775807 = 0"
    by (simp add: wrap64_def signed_divide_int_def)
  have nn: "\<not> wrap64 (int (length ?items) + 9223372036854775807 - 1) sdiv 9223372036854775807 < 0"
    by (simp only: len tp)
  have "fst (cubecraft_All ?e 0 0 0 ''released'' 9223372036854775807 [] routerService)
      = pagesLoop ?e ?items (int (length ?items)) 9223372036854775807 1 0"
    by (rule All_pages [OF f refl ne _ nn]) simp
  also have "\<dots> = Inr [\<lparr>Meta = \<lparr>Page = 1, Limit = 9223372036854775807,
                          TotalPages = wrap64 (int (length ?items) + 9223372036854775807 - 1)
                                         sdiv 9223372036854775807,
                          TotalResults = int (length ?items)\<rparr>,
                  Items = map (itemDTO ?e 1) ?items\<rparr>]"
    by (rule pagesLoop_single [OF refl]) (simp_all only: len, simp_all)
  finally have "fst (cubecraft_All ?e 0 0 0 ''released'' 9223372036854775807 [] routerService)
      = Inr [\<lparr>Meta = \<lparr>Page = 1, Limit = 9223372036854775807, TotalPages = 0, TotalResults = 4\<rparr>,
               Items = map (itemDTO ?e 1) ?items\<rparr>]"
    by (simp only: len tp)
  moreover have "specTotalPages 4 9223372036854775807 = 1"
    by (simp add: specTotalPages_def ceilDiv_def)
  ultimately show ?thesis by simp
qed

text \<open>
  Claim C8, as stated, fails for the cubecraft service. \<open>All\<close> fetches first and looks
  the column up afterwards, and a column that is not in the table selects no filter:
  for the column \<open>bogus\<close> the call sends a request to the provider and returns pages,
  not an error.
\<close>

theorem unknown_column_counterexample:
  "asciiLower ''bogus'' \<notin> dom columnToStatus
   \<and> \<not> isl (fst (cubecraft_All (notionEnv oneScrapped) 0 0 0 ''bogus'' 10 [] routerService))
   \<and> ccSent (ccSvcClient routerService) = 0
   \<and> ccSent (ccSvcClient (snd (cubecraft_All (notionEnv oneScrapped) 0 0 0 ''bogus'' 10 []
                                  routerService))) = 1"
proof -
  let ?e = "notionEnv oneScrapped"
  let ?cards = "[sampleCard ''a'' ''Scrapped'']"
  have u: "asciiLower ''bogus'' \<notin> dom columnToStatus"
    by (simp add: sample_lower columnToStatus_def domIff)
  have f: "Fetch ?e 0 0 (ccSvcClient routerService)
         = (Inr ?cards, \<lparr>ccCacheTTL = 120000000000,
                          ccCache = Some \<lparr>data = ?cards, ccExpiresAt = 120000000000\<rparr>,
                          ccSent = 1\<rparr>)"
    by (rule sample_Fetch) (simp add: oneScrapped_def)
  have "ToLower ?e ''bogus'' \<notin> dom columnToStatus"
    using u by (simp add: notionEnv_def sampleEnv_def)
  then have n: "(1::int) = int (length (filterCards ?e ''bogus'' ?cards))"
    by (simp add: filterCards_unknown)
  from All_in_range [OF f _ n, of 10 10 0 "[]"]
  obtain pages where "fst (cubecraft_All ?e 0 0 0 ''bogus'' 10 [] routerService) = Inr pages"
    by auto
  then have "\<not> isl (fst (cubecraft_All ?e 0 0 0 ''bogus'' 10 [] routerService))" by simp
  moreover have "ccSent (ccSvcClient routerService) = 0"
    by (simp add: routerService_def ccNewService_def ccNewClient_def ccWithCacheTTL_def)
  moreover have "ccSent (ccSvcClient (snd (cubecraft_All ?e 0 0 0 ''bogus'' 10 [] routerService))) = 1"
    by (simp add: All_client f)
  ultimately show ?thesis using u by blast
qed

text \<open>
  Claim C8, amended. For a column outside the recognized set the hive service rejects
  the query before any request: \<open>GetPage\<close> and \<open>GetAll\<close> return the unknown-column
  error and leave the service, with the log of requests sent, as it was. The cubecraft
  service does not check the column: \<open>All\<close> and \<open>Page\<close> start with the \<open>Fetch\<close> of
  the client, whatever the column is, and never return an unknown-column error; for a
  column outside the recognized set \<open>All\<close> filters nothing and its pages hold one item
  for every card fetched.
\<close>

theorem column_check:
  "(ToLower e (qColumn q) \<notin> dom columnToStatusID \<longrightarrow>
      GetPage e now now' t q s = (Inl (UnknownColumn (qColumn q)), s)
      \<and> GetAll e clk order t q s = (Inl (UnknownColumn (qColumn q)), s))
   \<and> ccSvcClient (snd (cubecraft_All e now now' t column limit sortBy cs))
       = snd (Fetch e now now' (ccSvcClient cs))
   \<and> ccSvcClient (snd (cubecraft_Page e now now' t column page limit sortBy cs))
       = snd (Fetch e now now' (ccSvcClient cs))
   \<and> fst (cubecraft_All e now now' t column limit sortBy cs) \<noteq> Inl (UnknownColumn col)
   \<and> fst (cubecraft_Page e now now' t column page limit sortBy cs) \<noteq> Inl (UnknownColumn col)
   \<and> (ToLower e column \<notin> dom columnToStatus \<longrightarrow>
        (\<forall>cards pages.
           fst (Fetch e now now' (ccSvcClient cs)) = Inr cards
           \<and> fst (cubecraft_All e now now' t column limit sortBy cs) = Inr pages \<longrightarrow>
           length (concat (map Items pages)) = length cards))"
proof (intro conjI)
  show "ToLower e (qColumn q) \<notin> dom columnToStatusID \<longrightarrow>
      GetPage e now now' t q s = (Inl (UnknownColumn (qColumn q)), s)
      \<and> GetAll e clk order t q s = (Inl (UnknownColumn (qColumn q)), s)"
    by (simp add: GetPage_unknown GetAll_unknown)
  show "ccSvcClient (snd (cubecraft_All e now now' t column limit sortBy cs))
       = snd (Fetch e now now' (ccSvcClient cs))"
    by (rule All_client)
  show "ccSvcClient (snd (cubecraft_Page e now now' t column page limit sortBy cs))
       = snd (Fetch e now now' (ccSvcClient cs))"
    by (rule Page_client)
  show "fst (cubecraft_All e now now' t column limit sortBy cs) \<noteq> Inl (UnknownColumn col)"
    using All_errors [of e now now' t column limit sortBy cs "UnknownColumn col"]
      Fetch_errors [of e now now' "ccSvcClient cs" "UnknownColumn col"]
    by auto
  show "fst (cubecraft_Page e now now' t column page limit sortBy cs) \<noteq> Inl (UnknownColumn col)"
    using Page_errors [of e now now' t column page limit sortBy cs "UnknownColumn col"]
      Fetch_errors [of e now now' "ccSvcClient cs" "UnknownColumn col"]
    by auto
  show "ToLower e column \<notin> dom columnToStatus \<longrightarrow>
        (\<forall>cards pages.
           fst (Fetch e now now' (ccSvcClient cs)) = Inr cards
           \<and> fst (cubecraft_All e now now' t column limit sortBy cs) = Inr pages \<longrightarrow>
           length (concat (map Items pages)) = length cards)"
    using All_unfiltered by blast
qed

text \<open>
  The column \<open>bogus\<close>: the hive service of the router answers with the error and has
  sent nothing; the cubecraft service returns the one card of the provider, whose status
  is none of the three.
\<close>

theorem column_check_witness:
  "asciiLower ''bogus'' \<notin> dom columnToStatusID
   \<and> GetPage (sampleEnv threePages decodePage DoFailed noCards) 0 0 0 (sampleQuery ''bogus'' 1)
        (NewService routerClient)
     = (Inl (UnknownColumn ''bogus''), NewService routerClient)
   \<and> GetAll (sampleEnv threePages decodePage DoFailed noCards) (\<lambda>q. (0, 0)) inOrder 0
        (sampleQuery ''bogus'' 1) (NewService routerClient)
     = (Inl (UnknownColumn ''bogus''), NewService routerClient)
   \<and> sent (svcClient (NewService routerClient)) = []
   \<and> asciiLower ''bogus'' \<notin> dom columnToStatus
   \<and> length (concat (map Items (projr (fst (cubecraft_All (notionEnv oneScrapped) 0 0 0
                ''bogus'' 10 [] routerService))))) = 1"
proof -
  let ?h = "sampleEnv threePages decodePage DoFailed noCards"
  let ?e = "notionEnv oneScrapped"
  let ?cards = "[sampleCard ''a'' ''Scrapped'']"
  have u1: "asciiLower ''bogus'' \<notin> dom columnToStatusID"
    by (simp add: sample_lower columnToStatusID_def domIff)
  have u2: "asciiLower ''bogus'' \<notin> dom columnToStatus"
    by (simp add: sample_lower columnToStatus_def domIff)
  have h: "ToLower ?h (qColumn (sampleQuery ''bogus'' 1)) \<notin> dom columnToStatusID"
    using u1 by (simp add: sampleEnv_def sampleQuery_def)
  have c: "ToLower ?e ''bogus'' \<notin> dom columnToStatus"
    using u2 by (simp add: notionEnv_def sampleEnv_def)
  have f: "Fetch ?e 0 0 (ccSvcClient routerService)
         = (Inr ?cards, \<lparr>ccCacheTTL = 120000000000,
                          ccCache = Some \<lparr>data = ?cards, ccExpiresAt = 120000000000\<rparr>,
                          ccSent = 1\<rparr>)"
    by (rule sample_Fetch) (simp add: oneScrapped_def)
  have n: "(1::int) = int (length (filterCards ?e ''bogus'' ?cards))"
    using c by (simp add: filterCards_unknown)
  from All_in_range [OF f _ n, of 10 10 0 "[]"]
  obtain pages where a: "fst (cubecraft_All ?e 0 0 0 ''bogus'' 10 [] routerService) = Inr pages"
    by auto
  note t = column_check [where e = ?h and q = "sampleQuery ''bogus'' 1" and now = 0 and now' = 0
      and t = 0 and s = "NewService routerClient" and clk = "\<lambda>q. (0, 0)" and order = inOrder]
  have 1: "GetPage ?h 0 0 0 (sampleQuery ''bogus'' 1) (NewService routerClient)
     = (Inl (UnknownColumn ''bogus''), NewService routerClient)"
    and 2: "GetAll ?h (\<lambda>q. (0, 0)) inOrder 0 (sampleQuery ''bogus'' 1) (NewService routerClient)
     = (Inl (UnknownColumn ''bogus''), NewService routerClient)"
    using t h by (simp_all add: sampleQuery_def)
  have 3: "sent (svcClient (NewService routerClient)) = []"
    by (simp add: NewService_def routerClient_eq)
  have "length (concat (map Items pages)) = length ?cards"
    using column_check [where e = ?e and now = 0 and now' = 0 and t = 0 and column = "''bogus''"
        and limit = 10 and sortBy = "[]" and cs = routerService] c f a
    by simp
  then have 4: "length (concat (map Items (projr (fst (cubecraft_All ?e 0 0 0 ''bogus'' 10 []
      routerService))))) = 1"
    by (simp add: a)
  show ?thesis using u1 u2 1 2 3 4 by blast
qed

end
